theory Spec2Isabelle
  imports Complex_Main "HOL-Library.AList"
begin

section \<open>Python values carried by the data stream\<close>

text \<open>
  A published payload is any Python object (\<^verbatim>\<open>data: Any = None\<close>).  The dispatcher only
  forwards it and tests it with \<^verbatim>\<open>if data:\<close>, so the model keeps the shapes whose truth
  value Python fixes: \<^verbatim>\<open>None\<close>, booleans, integers, strings, lists, and an opaque object
  (an instance of a class without \<^verbatim>\<open>__bool__\<close>/\<^verbatim>\<open>__len__\<close>, which is always true).
\<close>

datatype payload =
    PNone
  | PBool bool
  | PInt int
  | PStr string
  | PList "payload list"
  | PObject nat

fun truthy :: "payload \<Rightarrow> bool" where
  "truthy PNone = False"
| "truthy (PBool b) = b"
| "truthy (PInt i) = (i \<noteq> 0)"
| "truthy (PStr s) = (s \<noteq> [])"
| "truthy (PList xs) = (xs \<noteq> [])"
| "truthy (PObject _) = True"

section \<open>The publish/subscribe registries (\<^verbatim>\<open>data_stream/__init__.py\<close>)\<close>

text \<open>
  \<^verbatim>\<open>uuid.uuid4()\<close> draws a random identifier; the model takes the drawn value as an
  argument of \<^verbatim>\<open>subscribe_data\<close>.  The value stored under \<^verbatim>\<open>callback\<close> is classified the
  way \<^verbatim>\<open>run_callbacks\<close> inspects it: \<^verbatim>\<open>callable(..)\<close>, \<^verbatim>\<open>isinstance(.., Queue)\<close>,
  \<^verbatim>\<open>isinstance(.., tornado_queue)\<close>, or none of these.  The number names the object.
\<close>

type_synonym uuid = nat

datatype callback_kind =
    Callable nat
  | PyQueue nat
  | TornadoQueue nat
  | OtherObject nat

record DataSubscriber =
  callback :: callback_kind
  ioloop :: "nat option"

text \<open>
  A Python \<^verbatim>\<open>dict\<close> keeps insertion order and has one entry per key: an association list
  updated with \<^const>\<open>AList.update\<close> (replace in place, else append at the end).
\<close>

type_synonym callbacks = "(uuid \<times> DataSubscriber) list"
type_synonym registry = "(string \<times> callbacks) list"

text \<open>
  The class attributes \<^verbatim>\<open>_subscribers\<close>, \<^verbatim>\<open>_wildcard_subscribers\<close> and \<^verbatim>\<open>_data_queue\<close>:
  the state the static methods \<^verbatim>\<open>publish_data\<close>, \<^verbatim>\<open>subscribe_data\<close> and
  \<^verbatim>\<open>unsubscribe_data\<close> work on.
\<close>

record DataStream =
  subscribers :: registry
  wildcard_subscribers :: registry
  data_queue :: "(string \<times> payload) list"

datatype error = KeyError

text \<open>\<^verbatim>\<open>"*" in data_topic\<close>\<close>

definition has_wildcard :: "string \<Rightarrow> bool" where
  "has_wildcard data_topic = (CHR ''*'' \<in> set data_topic)"

text \<open>\<^verbatim>\<open>d.setdefault(data_topic, {})[unique_id] = sub\<close>\<close>

definition setdefault_store :: "registry \<Rightarrow> string \<Rightarrow> uuid \<Rightarrow> DataSubscriber \<Rightarrow> registry" where
  "setdefault_store reg data_topic unique_id sub =
     (case map_of reg data_topic of
        None \<Rightarrow> reg @ [(data_topic, [(unique_id, sub)])]
      | Some cbs \<Rightarrow> AList.update data_topic (AList.update unique_id sub cbs) reg)"

definition subscribe_data ::
  "DataStream \<Rightarrow> string \<Rightarrow> callback_kind \<Rightarrow> nat option \<Rightarrow> uuid \<Rightarrow> uuid \<times> DataStream" where
  "subscribe_data ds data_topic cb io unique_id =
     (if has_wildcard data_topic then
        (unique_id,
         ds\<lparr>wildcard_subscribers :=
              setdefault_store (wildcard_subscribers ds) data_topic unique_id
                \<lparr>callback = cb, ioloop = io\<rparr>\<rparr>)
      else
        (unique_id,
         ds\<lparr>subscribers :=
              setdefault_store (subscribers ds) data_topic unique_id
                \<lparr>callback = cb, ioloop = io\<rparr>\<rparr>))"

text \<open>
  \<^verbatim>\<open>d[data_topic].pop(unique_id)\<close>: the subscript raises \<^verbatim>\<open>KeyError\<close> when the topic has no
  entry, and \<^verbatim>\<open>pop\<close> without a default raises it when the id is not in the inner dict.
  The inner dict stays in the registry, also when it becomes empty.
\<close>

definition pop_subscription :: "registry \<Rightarrow> string \<Rightarrow> uuid \<Rightarrow> error + registry" where
  "pop_subscription reg data_topic unique_id =
     (case map_of reg data_topic of
        None \<Rightarrow> Inl KeyError
      | Some cbs \<Rightarrow>
          (case map_of cbs unique_id of
             None \<Rightarrow> Inl KeyError
           | Some _ \<Rightarrow> Inr (AList.update data_topic (AList.delete unique_id cbs) reg)))"

definition unsubscribe_data :: "DataStream \<Rightarrow> string \<Rightarrow> uuid \<Rightarrow> error + DataStream" where
  "unsubscribe_data ds data_topic unique_id =
     (if has_wildcard data_topic then
        (case pop_subscription (wildcard_subscribers ds) data_topic unique_id of
           Inl e \<Rightarrow> Inl e
         | Inr reg \<Rightarrow> Inr (ds\<lparr>wildcard_subscribers := reg\<rparr>))
      else
        (case pop_subscription (subscribers ds) data_topic unique_id of
           Inl e \<Rightarrow> Inl e
         | Inr reg \<Rightarrow> Inr (ds\<lparr>subscribers := reg\<rparr>)))"

text \<open>The subscription stored for an id under a topic, in the registry its \<^verbatim>\<open>*\<close> selects.\<close>

definition lookup_registry :: "registry \<Rightarrow> string \<Rightarrow> uuid \<Rightarrow> DataSubscriber option" where
  "lookup_registry reg data_topic unique_id =
     (case map_of reg data_topic of None \<Rightarrow> None | Some cbs \<Rightarrow> map_of cbs unique_id)"

definition lookup_subscription :: "DataStream \<Rightarrow> string \<Rightarrow> uuid \<Rightarrow> DataSubscriber option" where
  "lookup_subscription ds data_topic unique_id =
     lookup_registry
       (if has_wildcard data_topic then wildcard_subscribers ds else subscribers ds)
       data_topic unique_id"

text \<open>All ids stored anywhere in a registry.\<close>

definition registry_ids :: "registry \<Rightarrow> uuid set" where
  "registry_ids reg = (\<Union>(t, cbs) \<in> set reg. fst ` set cbs)"

subsection \<open>The mailbox\<close>

text \<open>
  Modelled from the spec: \<^verbatim>\<open>helpers.pop_if_full\<close> is called by \<^verbatim>\<open>publish_data\<close> and
  \<^verbatim>\<open>run_callbacks\<close> but \<^verbatim>\<open>viseron/helpers\<close> is not among the sources.  The spec's mailbox is
  "a fixed-capacity ordered buffer" whose "overflow policy is drop-oldest-insert-newest
  (never blocks a producer)".  The queue is the list of its entries, oldest first;
  \<^verbatim>\<open>maxsize = 0\<close> is Python's unbounded \<^verbatim>\<open>Queue\<close>.
\<close>

definition pop_if_full :: "nat \<Rightarrow> 'a list \<Rightarrow> 'a \<Rightarrow> 'a list" where
  "pop_if_full maxsize queue item =
     (if maxsize = 0 \<or> length queue < maxsize then queue @ [item]
      else tl queue @ [item])"

text \<open>\<^verbatim>\<open>_data_queue: Queue = Queue(maxsize=1000)\<close>\<close>

definition data_queue_maxsize :: nat where
  "data_queue_maxsize = 1000"

definition publish_data :: "DataStream \<Rightarrow> string \<Rightarrow> payload \<Rightarrow> DataStream" where
  "publish_data ds data_topic data =
     ds\<lparr>data_queue := pop_if_full data_queue_maxsize (data_queue ds) (data_topic, data)\<rparr>"

text \<open>A run of publishes with no dequeue in between.\<close>

definition publish_all :: "DataStream \<Rightarrow> (string \<times> payload) list \<Rightarrow> DataStream" where
  "publish_all ds msgs = foldl (\<lambda>d (t, x). publish_data d t x) ds msgs"

text \<open>The class attributes as the module creates them: both dicts and the queue empty.\<close>

definition new_data_stream :: DataStream where
  "new_data_stream = \<lparr>subscribers = [], wildcard_subscribers = [], data_queue = []\<rparr>"

section \<open>Topic matching: \<^verbatim>\<open>fnmatch.fnmatch\<close>\<close>

text \<open>
  \<^verbatim>\<open>wildcard_subscriptions\<close> matches with the standard library's \<^verbatim>\<open>fnmatch.fnmatch(name, pat)\<close>.
  On POSIX \<^verbatim>\<open>os.path.normcase\<close> is the identity, so the call is \<^verbatim>\<open>fnmatchcase\<close>: the
  pattern is translated to a regular expression that must match the whole name
  (\<^verbatim>\<open>(?s:...)\Z\<close>, so \<^verbatim>\<open>.\<close> matches every character).  The tokens of the translation:
  \<^verbatim>\<open>*\<close> is \<^verbatim>\<open>.*\<close>, \<^verbatim>\<open>?\<close> is \<^verbatim>\<open>.\<close>, \<^verbatim>\<open>[seq]\<close> and \<^verbatim>\<open>[!seq]\<close> are character sets,
  every other character stands for itself.  The character \<^verbatim>\<open>/\<close> has no special role.
\<close>

datatype glob_token =
    Star
  | AnyChar
  | Literal char
  | CharSet bool string

text \<open>
  The scan for the end of a bracket expression in \<^verbatim>\<open>fnmatch.translate\<close>, on the text after
  the \<^verbatim>\<open>[\<close>: skip a leading \<^verbatim>\<open>!\<close>, skip a \<^verbatim>\<open>]\<close> standing first, then run to the next
  \<^verbatim>\<open>]\<close>.  Without one the \<^verbatim>\<open>[\<close> is an ordinary character (\<open>None\<close>); otherwise the
  result is the text between the brackets and the text after the closing one.
\<close>

definition bracket :: "string \<Rightarrow> (string \<times> string) option" where
  "bracket pat =
     (let j0 = (if pat \<noteq> [] \<and> hd pat = CHR ''!'' then 1 else 0);
          j1 = (if j0 < length pat \<and> pat ! j0 = CHR '']'' then j0 + 1 else j0);
          j = j1 + length (takeWhile (\<lambda>c. c \<noteq> CHR '']'') (drop j1 pat))
      in if j \<ge> length pat then None else Some (take j pat, drop (j + 1) pat))"

text \<open>
  Membership in the text of a character set: \<^verbatim>\<open>lo-hi\<close> is a range of character codes (an
  empty one when \<^verbatim>\<open>lo > hi\<close>), a hyphen that closes no range stands for itself.
\<close>

fun in_set :: "string \<Rightarrow> char \<Rightarrow> bool" where
  "in_set (lo # m # hi # rest) c =
     (if m = CHR ''-'' then
        ((of_char lo :: nat) \<le> of_char c \<and> (of_char c :: nat) \<le> of_char hi) \<or> in_set rest c
      else lo = c \<or> in_set (m # hi # rest) c)"
| "in_set (x # rest) c = (x = c \<or> in_set rest c)"
| "in_set [] c = False"

definition set_token :: "string \<Rightarrow> glob_token" where
  "set_token stuff =
     (case stuff of
        [] \<Rightarrow> CharSet False []
      | x # members \<Rightarrow> if x = CHR ''!'' then CharSet True members else CharSet False stuff)"

lemma bracket_shorter: "bracket pat = Some (stuff, rest) \<Longrightarrow> length rest \<le> length pat"
  by (auto simp: bracket_def Let_def split: if_splits)

function translate :: "string \<Rightarrow> glob_token list" where
  "translate [] = []"
| "translate (c # pat) =
     (if c = CHR ''*'' then Star # translate pat
      else if c = CHR ''?'' then AnyChar # translate pat
      else if c = CHR ''['' then
        (case bracket pat of
           None \<Rightarrow> Literal c # translate pat
         | Some (stuff, rest) \<Rightarrow> set_token stuff # translate rest)
      else Literal c # translate pat)"
  by pat_completeness auto
termination
  by (relation "measure length") (auto dest: bracket_shorter)

fun accepts :: "glob_token \<Rightarrow> char \<Rightarrow> bool" where
  "accepts Star c = True"
| "accepts AnyChar c = True"
| "accepts (Literal x) c = (x = c)"
| "accepts (CharSet negated members) c = (in_set members c \<noteq> negated)"

fun glob_match :: "glob_token list \<Rightarrow> string \<Rightarrow> bool" where
  "glob_match [] name = (name = [])"
| "glob_match (Star # ts) [] = glob_match ts []"
| "glob_match (Star # ts) (c # name) = (glob_match ts (c # name) \<or> glob_match (Star # ts) name)"
| "glob_match (t # ts) [] = False"
| "glob_match (t # ts) (c # name) = (accepts t c \<and> glob_match ts name)"

definition fnmatch :: "string \<Rightarrow> string \<Rightarrow> bool" where
  "fnmatch name pat = glob_match (translate pat) name"

text \<open>A text without the characters \<^verbatim>\<open>*\<close>, \<^verbatim>\<open>?\<close> and \<^verbatim>\<open>[\<close> that \<^verbatim>\<open>fnmatch\<close> reads specially.\<close>

definition plain :: "string \<Rightarrow> bool" where
  "plain s = (CHR ''*'' \<notin> set s \<and> CHR ''?'' \<notin> set s \<and> CHR ''['' \<notin> set s)"

text \<open>
  The spec's reading of topics, for comparison with \<^const>\<open>fnmatch\<close>: a topic is its
  \<^verbatim>\<open>/\<close>-delimited segments (as \<^verbatim>\<open>str.split("/")\<close> gives them), and a pattern matches a
  topic "segment-for-segment" when both have as many segments and every pattern segment is
  \<^verbatim>\<open>*\<close> or equal to the topic's segment at its position.
\<close>

fun spec_segments :: "string \<Rightarrow> string list" where
  "spec_segments [] = [[]]"
| "spec_segments (c # s) =
     (if c = CHR ''/'' then [] # spec_segments s
      else (case spec_segments s of [] \<Rightarrow> [[c]] | seg # segs \<Rightarrow> (c # seg) # segs))"

definition spec_segment_match :: "string \<Rightarrow> string \<Rightarrow> bool" where
  "spec_segment_match pat topic =
     list_all2 (\<lambda>p t. p = ''*'' \<or> p = t) (spec_segments pat) (spec_segments topic)"

section \<open>The dispatcher (\<^verbatim>\<open>run_callbacks\<close>, \<^verbatim>\<open>consume_data\<close>)\<close>

text \<open>
  What the operating system answers inside the \<^verbatim>\<open>while True:\<close> loop of \<^verbatim>\<open>run_callbacks\<close>.
  Every pass of the loop reads \<^verbatim>\<open>threading.active_count()\<close>, and a pass that gets as far as
  \<^verbatim>\<open>thread.start()\<close> either starts the thread, or raises \<^verbatim>\<open>RuntimeError\<close> with
  "can't start new thread" in its message, or raises a \<^verbatim>\<open>RuntimeError\<close> with another
  message.  An observation is the pair for one pass; the list of observations still to come
  is part of the dispatcher's state.
\<close>

datatype start_result = Started | CantStartNewThread | OtherRuntimeError

type_synonym observation = "nat \<times> start_result"

text \<open>
  What the dispatcher does to the outside.  An event that hands a message to a subscriber
  carries the subscription id it was produced for; \<^verbatim>\<open>run_callbacks\<close> itself iterates over
  \<^verbatim>\<open>callbacks.copy().values()\<close>, the id is the label of the trace.
\<close>

datatype event =
    TimeSleep
  | LoggerDebug nat nat
  | ThreadStart uuid nat "payload option"
  | AddCallback uuid nat nat "payload option"
  | QueuePut uuid nat payload
  | AddCallbackPut uuid nat nat payload
  | LoggerError uuid

fun event_id :: "event \<Rightarrow> uuid option" where
  "event_id TimeSleep = None"
| "event_id (LoggerDebug m a) = None"
| "event_id (ThreadStart i f args) = Some i"
| "event_id (AddCallback i io f args) = Some i"
| "event_id (QueuePut i q x) = Some i"
| "event_id (AddCallbackPut i io q x) = Some i"
| "event_id (LoggerError i) = Some i"

text \<open>
  The instance attribute \<^verbatim>\<open>self._max_threads\<close>, the observations to come and the trace so
  far.
\<close>

record dispatcher =
  max_threads :: nat
  observations :: "observation list"
  trace :: "event list"

text \<open>
  \<^verbatim>\<open>int(active_threads * 0.95)\<close>.  The product is computed in double precision and truncated.
  For a thread count the result is the integer \<open>\<lfloor>95 n / 100\<rfloor>\<close>: when \<open>19 n / 20\<close> is an
  integer the product rounds to it (the relative error of the constant is below half a unit
  in the last place), and otherwise its fractional part is at least \<open>1/20\<close>.
\<close>

definition revised_ceiling :: "nat \<Rightarrow> nat" where
  "revised_ceiling active_threads = (active_threads * 95) div 100"

text \<open>
  The loop that starts the thread of a direct delivery:
  \<^verbatim>\<open>
  while True:
      active_threads = threading.active_count()
      if active_threads > self._max_threads:
          time.sleep(0.01)
          continue
      try:
          thread.start()
      except RuntimeError as err:
          if "can't start new thread" in str(err):
              LOGGER.debug(...)
              self._max_threads = int(active_threads * 0.95)
              continue
      break
  \<close>
  It ends with the thread started (\<open>Spawned\<close>), or, after a \<^verbatim>\<open>RuntimeError\<close> with another
  message, by falling through to \<^verbatim>\<open>break\<close> with the thread not started (\<open>Abandoned\<close>).  When
  the observations run out the loop is still going round (\<open>Retrying\<close>).  The result also
  gives the ceiling, the observations left and the events of the loop.
\<close>

datatype spawn_result = Spawned | Abandoned | Retrying

fun start_thread ::
  "nat \<Rightarrow> observation list \<Rightarrow> spawn_result \<times> nat \<times> observation list \<times> event list" where
  "start_thread m [] = (Retrying, m, [], [])"
| "start_thread m ((active_threads, r) # obs) =
     (if active_threads > m then
        (case start_thread m obs of (res, m', obs', evs) \<Rightarrow> (res, m', obs', TimeSleep # evs))
      else
        (case r of
           Started \<Rightarrow> (Spawned, m, obs, [])
         | CantStartNewThread \<Rightarrow>
             (case start_thread (revised_ceiling active_threads) obs of
                (res, m', obs', evs) \<Rightarrow> (res, m', obs', LoggerDebug m active_threads # evs))
         | OtherRuntimeError \<Rightarrow> (Abandoned, m, obs, [])))"

text \<open>\<^verbatim>\<open>if data: ... args=(data,) ... else: ...\<close> (no \<^verbatim>\<open>args\<close>)\<close>

definition payload_args :: "payload \<Rightarrow> payload option" where
  "payload_args data = (if truthy data then Some data else None)"

definition emit :: "dispatcher \<Rightarrow> event \<Rightarrow> dispatcher" where
  "emit d e = d\<lparr>trace := trace d @ [e]\<rparr>"

text \<open>
  The body of the \<^verbatim>\<open>for\<close> loop of \<^verbatim>\<open>run_callbacks\<close> for one subscriber, its tests in the
  order of the source.  \<open>None\<close>: the thread-start loop has not ended within the
  observations.
\<close>

definition run_callback :: "dispatcher \<Rightarrow> uuid \<Rightarrow> DataSubscriber \<Rightarrow> payload \<Rightarrow> dispatcher option" where
  "run_callback d sid sub data =
     (case callback sub of
        Callable f \<Rightarrow>
          (case ioloop sub of
             None \<Rightarrow>
               (case start_thread (max_threads d) (observations d) of
                  (Spawned, m, obs, evs) \<Rightarrow>
                    Some (d\<lparr>max_threads := m, observations := obs,
                            trace := trace d @ evs @ [ThreadStart sid f (payload_args data)]\<rparr>)
                | (Abandoned, m, obs, evs) \<Rightarrow>
                    Some (d\<lparr>max_threads := m, observations := obs, trace := trace d @ evs\<rparr>)
                | (Retrying, m, obs, evs) \<Rightarrow> None)
           | Some io \<Rightarrow> Some (emit d (AddCallback sid io f (payload_args data))))
      | PyQueue q \<Rightarrow> Some (emit d (QueuePut sid q data))
      | TornadoQueue q \<Rightarrow>
          (case ioloop sub of
             Some io \<Rightarrow> Some (emit d (AddCallbackPut sid io q data))
           | None \<Rightarrow> Some (emit d (LoggerError sid)))
      | OtherObject x \<Rightarrow> Some (emit d (LoggerError sid)))"

fun run_callbacks :: "dispatcher \<Rightarrow> callbacks \<Rightarrow> payload \<Rightarrow> dispatcher option" where
  "run_callbacks d [] data = Some d"
| "run_callbacks d ((sid, sub) # cbs) data =
     (case run_callback d sid sub data of
        None \<Rightarrow> None
      | Some d' \<Rightarrow> run_callbacks d' cbs data)"

text \<open>\<^verbatim>\<open>DataStream._subscribers.get(data_item["data_topic"], {})\<close>\<close>

definition static_subscriptions ::
  "DataStream \<Rightarrow> dispatcher \<Rightarrow> string \<times> payload \<Rightarrow> dispatcher option" where
  "static_subscriptions ds d data_item =
     run_callbacks d
       (case map_of (subscribers ds) (fst data_item) of None \<Rightarrow> [] | Some cbs \<Rightarrow> cbs)
       (snd data_item)"

text \<open>\<^verbatim>\<open>for data_topic, callbacks in DataStream._wildcard_subscribers.copy().items(): ...\<close>\<close>

fun wildcard_loop :: "registry \<Rightarrow> dispatcher \<Rightarrow> string \<times> payload \<Rightarrow> dispatcher option" where
  "wildcard_loop [] d data_item = Some d"
| "wildcard_loop ((data_topic, cbs) # reg) d data_item =
     (if fnmatch (fst data_item) data_topic then
        (case run_callbacks d cbs (snd data_item) of
           None \<Rightarrow> None
         | Some d' \<Rightarrow> wildcard_loop reg d' data_item)
      else wildcard_loop reg d data_item)"

definition wildcard_subscriptions ::
  "DataStream \<Rightarrow> dispatcher \<Rightarrow> string \<times> payload \<Rightarrow> dispatcher option" where
  "wildcard_subscriptions ds d data_item = wildcard_loop (wildcard_subscribers ds) d data_item"

text \<open>
  One pass of the loop of \<^verbatim>\<open>consume_data\<close> on a message taken from the mailbox, and the
  passes for the messages the mailbox holds, oldest first.  On an empty mailbox
  \<^verbatim>\<open>self._data_queue.get()\<close> waits: the model returns there.
\<close>

definition dispatch :: "DataStream \<Rightarrow> dispatcher \<Rightarrow> string \<times> payload \<Rightarrow> dispatcher option" where
  "dispatch ds d data_item =
     (case static_subscriptions ds d data_item of
        None \<Rightarrow> None
      | Some d' \<Rightarrow> wildcard_subscriptions ds d' data_item)"

fun dispatch_all ::
  "DataStream \<Rightarrow> dispatcher \<Rightarrow> (string \<times> payload) list \<Rightarrow> dispatcher option" where
  "dispatch_all ds d [] = Some d"
| "dispatch_all ds d (data_item # items) =
     (case dispatch ds d data_item of
        None \<Rightarrow> None
      | Some d' \<Rightarrow> dispatch_all ds d' items)"

definition consume_data :: "DataStream \<Rightarrow> dispatcher \<Rightarrow> (DataStream \<times> dispatcher) option" where
  "consume_data ds d =
     (case dispatch_all ds d (data_queue ds) of
        None \<Rightarrow> None
      | Some d' \<Rightarrow> Some (ds\<lparr>data_queue := []\<rparr>, d'))"

subsection \<open>Notions for stating what dispatch does\<close>

text \<open>
  The event by which \<^verbatim>\<open>run_callbacks\<close> hands a message to a subscription, by the kind of its
  target: used to state what a subscriber receives.
\<close>

definition delivery :: "uuid \<Rightarrow> DataSubscriber \<Rightarrow> payload \<Rightarrow> event" where
  "delivery sid sub data =
     (case callback sub of
        Callable f \<Rightarrow>
          (case ioloop sub of
             None \<Rightarrow> ThreadStart sid f (payload_args data)
           | Some io \<Rightarrow> AddCallback sid io f (payload_args data))
      | PyQueue q \<Rightarrow> QueuePut sid q data
      | TornadoQueue q \<Rightarrow>
          (case ioloop sub of
             Some io \<Rightarrow> AddCallbackPut sid io q data
           | None \<Rightarrow> LoggerError sid)
      | OtherObject x \<Rightarrow> LoggerError sid)"

text \<open>A target kind \<^verbatim>\<open>run_callbacks\<close> has a delivery mode for.\<close>

definition supported :: "DataSubscriber \<Rightarrow> bool" where
  "supported sub =
     (case callback sub of
        Callable f \<Rightarrow> True
      | PyQueue q \<Rightarrow> True
      | TornadoQueue q \<Rightarrow> ioloop sub \<noteq> None
      | OtherObject x \<Rightarrow> False)"

text \<open>The events of a trace produced for one subscription.\<close>

definition events_of :: "uuid \<Rightarrow> event list \<Rightarrow> event list" where
  "events_of sid evs = filter (\<lambda>e. event_id e = Some sid) evs"

text \<open>
  The observations hold no \<^verbatim>\<open>RuntimeError\<close> other than "can't start new thread".
\<close>

definition clean :: "observation list \<Rightarrow> bool" where
  "clean obs = (OtherRuntimeError \<notin> snd ` set obs)"

text \<open>The deliveries one pass over a subscriber dict makes for a subscription id.\<close>

definition deliveries :: "uuid \<Rightarrow> callbacks \<Rightarrow> payload \<Rightarrow> event list" where
  "deliveries sid cbs data =
     map (\<lambda>(i, sub). delivery i sub data) (filter (\<lambda>(i, sub). i = sid) cbs)"

text \<open>
  The deliveries the loop of \<^verbatim>\<open>wildcard_subscriptions\<close> makes for a subscription id: those of
  every pattern, in the order of the dict, that \<^verbatim>\<open>fnmatch\<close> accepts for the topic.
\<close>

definition matching_deliveries :: "uuid \<Rightarrow> registry \<Rightarrow> string \<times> payload \<Rightarrow> event list" where
  "matching_deliveries sid reg data_item =
     concat (map (\<lambda>(data_topic, cbs).
       if fnmatch (fst data_item) data_topic then deliveries sid cbs (snd data_item) else []) reg)"

text \<open>A Python dict has one entry per key: in a registry, and in each of its inner dicts.\<close>

definition dict_invariant :: "registry \<Rightarrow> bool" where
  "dict_invariant reg =
     (distinct (map fst reg) \<and> (\<forall>(t, cbs) \<in> set reg. distinct (map fst cbs)))"

text \<open>
  Observations under which every pass of the thread-start loop starts its thread at once: the
  active count is within the ceiling and \<^verbatim>\<open>thread.start()\<close> succeeds.
\<close>

definition calm :: "nat \<Rightarrow> observation list \<Rightarrow> bool" where
  "calm m obs = (\<forall>(active_threads, r) \<in> set obs. active_threads \<le> m \<and> r = Started)"

text \<open>The number of subscriptions in a registry.\<close>

definition registry_size :: "registry \<Rightarrow> nat" where
  "registry_size reg = sum_list (map (\<lambda>(t, cbs). length cbs) reg)"

text \<open>
  For comparing a dispatch with and without one subscription: the registries with an id taken
  out of every entry, a dispatcher with the errors logged for that id taken out of its trace,
  and the condition that whatever is stored under the id is of an unsupported kind.
\<close>

definition remove_id :: "uuid \<Rightarrow> registry \<Rightarrow> registry" where
  "remove_id sid reg = map (\<lambda>(t, cbs). (t, AList.delete sid cbs)) reg"

definition without_subscription :: "uuid \<Rightarrow> DataStream \<Rightarrow> DataStream" where
  "without_subscription sid ds =
     ds\<lparr>subscribers := remove_id sid (subscribers ds),
        wildcard_subscribers := remove_id sid (wildcard_subscribers ds)\<rparr>"

definition without_error :: "uuid \<Rightarrow> dispatcher \<Rightarrow> dispatcher" where
  "without_error sid d = d\<lparr>trace := filter (\<lambda>e. e \<noteq> LoggerError sid) (trace d)\<rparr>"

definition unsupported_in :: "uuid \<Rightarrow> callbacks \<Rightarrow> bool" where
  "unsupported_in sid cbs = (\<forall>(i, sub) \<in> set cbs. i = sid \<longrightarrow> \<not> supported sub)"

definition only_unsupported :: "uuid \<Rightarrow> registry \<Rightarrow> bool" where
  "only_unsupported sid reg = (\<forall>(t, cbs) \<in> set reg. unsupported_in sid cbs)"

subsection \<open>The spec's scenario\<close>

text \<open>
  Subscribers on \<^verbatim>\<open>camera/front/frame\<close> (exact, a queue), \<^verbatim>\<open>camera/*/frame\<close> (wildcard, a
  callable run in a thread) and \<^verbatim>\<open>camera/*/event\<close> (wildcard, a callable on an ioloop),
  registered in this order with the ids 1, 2 and 3; and a dispatcher with ceiling 10 that
  will see two active threads and a successful start on each of its next three passes.
\<close>

definition scenario_stream :: DataStream where
  "scenario_stream =
     snd (subscribe_data (snd (subscribe_data (snd (subscribe_data new_data_stream
       ''camera/front/frame'' (PyQueue 11) None 1))
       ''camera/*/frame'' (Callable 12) None 2))
       ''camera/*/event'' (Callable 13) (Some 5) 3)"

definition scenario_dispatcher :: dispatcher where
  "scenario_dispatcher =
     \<lparr>max_threads = 10, observations = [(2, Started), (2, Started), (2, Started)], trace = []\<rparr>"

section \<open>The process watchdog (\<^verbatim>\<open>watchdog/process_watchdog.py\<close>)\<close>

subsection \<open>The arguments of \<^verbatim>\<open>mp.Process\<close>\<close>

text \<open>
  The values a unit is built from, as far as the constructor of \<^verbatim>\<open>mp.Process\<close> tells them
  apart: \<^verbatim>\<open>None\<close>, booleans, integers, strings, callables (named by a number), tuples, and
  dicts with string keys (an association list, its keys distinct).
\<close>

datatype pyarg =
    ANone
  | ABool bool
  | AInt int
  | AStr string
  | ACallable nat
  | ATuple "pyarg list"
  | ADict "(string \<times> pyarg) list"

text \<open>The exceptions \<^verbatim>\<open>start\<close> and \<^verbatim>\<open>restart\<close> can end with.\<close>

datatype exception = AssertionError | AttributeError | OSError | TypeError | ValueError

text \<open>
  What iterating over a value yields: the elements of a tuple, the characters of a string,
  the keys of a dict; the other values are not iterable.
\<close>

fun iter_items :: "pyarg \<Rightarrow> pyarg list option" where
  "iter_items (ATuple xs) = Some xs"
| "iter_items (AStr s) = Some (map (\<lambda>c. AStr [c]) s)"
| "iter_items (ADict kv) = Some (map (\<lambda>(k, v). AStr k) kv)"
| "iter_items ANone = None"
| "iter_items (ABool b) = None"
| "iter_items (AInt i) = None"
| "iter_items (ACallable f) = None"

text \<open>A dict is not hashable, a tuple is when its elements are, the other values are.\<close>

fun hashable :: "pyarg \<Rightarrow> bool" where
  "hashable (ATuple xs) = (\<forall>x \<in> set xs. hashable x)"
| "hashable (ADict kv) = False"
| "hashable ANone = True"
| "hashable (ABool b) = True"
| "hashable (AInt i) = True"
| "hashable (AStr s) = True"
| "hashable (ACallable f) = True"

text \<open>
  \<^verbatim>\<open>dict(v)\<close>, as \<^verbatim>\<open>BaseProcess.__init__\<close> calls it on its \<^verbatim>\<open>kwargs\<close> argument: a dict is
  copied; of any other iterable every element must itself be iterable (\<^verbatim>\<open>TypeError\<close>
  otherwise) with exactly two items (\<^verbatim>\<open>ValueError\<close> otherwise), the first of them hashable
  (\<^verbatim>\<open>TypeError\<close> otherwise); the first element at fault decides.
\<close>

definition dict_item_error :: "pyarg \<Rightarrow> exception option" where
  "dict_item_error e =
     (case iter_items e of
        None \<Rightarrow> Some TypeError
      | Some [k, v] \<Rightarrow> if hashable k then None else Some TypeError
      | Some _ \<Rightarrow> Some ValueError)"

fun first_error :: "exception option list \<Rightarrow> exception option" where
  "first_error [] = None"
| "first_error (None # es) = first_error es"
| "first_error (Some e # es) = Some e"

definition dict_error :: "pyarg \<Rightarrow> exception option" where
  "dict_error v =
     (case v of
        ADict kv \<Rightarrow> None
      | _ \<Rightarrow> (case iter_items v of
                None \<Rightarrow> Some TypeError
              | Some es \<Rightarrow> first_error (map dict_item_error es)))"

text \<open>
  \<^verbatim>\<open>mp.Process(*args, **kwargs)\<close> runs
  \<^verbatim>\<open>BaseProcess.__init__(self, group=None, target=None, name=None, args=(), kwargs={}, *,
  daemon=None)\<close>.  The call itself raises \<^verbatim>\<open>TypeError\<close> when there are more than five
  positional arguments, or a keyword that is no parameter, or a keyword for a parameter a
  positional argument has filled.
\<close>

definition process_parameters :: "string list" where
  "process_parameters = [''group'', ''target'', ''name'', ''args'', ''kwargs'']"

definition bind_error :: "pyarg list \<Rightarrow> (string \<times> pyarg) list \<Rightarrow> exception option" where
  "bind_error a kw =
     (if 5 < length a then Some TypeError
      else if \<exists>k \<in> set (map fst kw).
                k \<notin> set (process_parameters @ [''daemon'']) \<or>
                k \<in> set (take (length a) process_parameters)
      then Some TypeError
      else None)"

text \<open>The value of the parameter at position \<open>i\<close> with name \<open>n\<close> and default \<open>d\<close>.\<close>

definition argument ::
  "nat \<Rightarrow> string \<Rightarrow> pyarg \<Rightarrow> pyarg list \<Rightarrow> (string \<times> pyarg) list \<Rightarrow> pyarg"
where
  "argument i n d a kw =
     (if i < length a then a ! i else case map_of kw n of Some v \<Rightarrow> v | None \<Rightarrow> d)"

text \<open>
  The body of the constructor then has \<^verbatim>\<open>assert group is None\<close>, \<^verbatim>\<open>tuple(args)\<close> and
  \<^verbatim>\<open>dict(kwargs)\<close>, in this order; \<^verbatim>\<open>target\<close>, \<^verbatim>\<open>name\<close> and \<^verbatim>\<open>daemon\<close> are stored as they are.
  \<^verbatim>\<open>None\<close> means that the object is created.
\<close>

definition process_init_error :: "pyarg list \<Rightarrow> (string \<times> pyarg) list \<Rightarrow> exception option" where
  "process_init_error a kw =
     (case bind_error a kw of
        Some e \<Rightarrow> Some e
      | None \<Rightarrow>
          if argument 0 ''group'' ANone a kw \<noteq> ANone then Some AssertionError
          else (case iter_items (argument 3 ''args'' (ATuple []) a kw) of
                  None \<Rightarrow> Some TypeError
                | Some xs \<Rightarrow> dict_error (argument 4 ''kwargs'' (ADict []) a kw)))"

subsection \<open>Units, child processes and the watchdog state\<close>

text \<open>
  A \<^verbatim>\<open>RestartableProcess\<close> object.  \<^verbatim>\<open>_args\<close> and \<^verbatim>\<open>_kwargs\<close> are kept as the values given
  to the constructor, \<^verbatim>\<open>_process\<close> is the handle of the \<^verbatim>\<open>mp.Process\<close> object (a number
  naming it) or \<^verbatim>\<open>None\<close>, and \<^verbatim>\<open>_start_time\<close> is a clock reading in seconds (a float in the
  source, a real number here) or \<^verbatim>\<open>None\<close>.
\<close>

record RestartableProcess =
  args :: "pyarg list"
  name :: "string option"
  grace_period :: real
  kwargs :: "(string \<times> pyarg) list"
  process :: "nat option"
  started :: bool
  start_time :: "real option"
  register :: bool

text \<open>\<^verbatim>\<open>__init__(self, *args, name=None, grace_period=20, register=True, **kwargs)\<close>\<close>

definition init_process ::
  "pyarg list \<Rightarrow> string option \<Rightarrow> real \<Rightarrow> bool \<Rightarrow> (string \<times> pyarg) list \<Rightarrow> RestartableProcess"
where
  "init_process a n g reg kw =
     \<lparr>args = a, name = n, grace_period = g, kwargs = kw, process = None, started = False,
      start_time = None, register = reg\<rparr>"

text \<open>
  The calls the methods make, in order: a call of \<^verbatim>\<open>restart\<close> on a unit (with its timeout),
  the creation of an \<^verbatim>\<open>mp.Process\<close> object, the calls of \<^verbatim>\<open>start()\<close>, \<^verbatim>\<open>terminate()\<close>,
  \<^verbatim>\<open>join(timeout)\<close> and \<^verbatim>\<open>kill()\<close> on one, the registration of a unit, and the error the
  watchdog logs (with the unit's name).  A call is recorded when it is made, whether it
  then returns or not.
\<close>

datatype process_event =
    Restart nat "real option"
  | ProcessCreate nat
  | ProcessStart nat
  | ProcessTerminate nat
  | ProcessJoin nat "real option"
  | ProcessKill nat
  | Register nat
  | LogExited "string option"

text \<open>
  An \<^verbatim>\<open>mp.Process\<close> object has not been started (its \<^verbatim>\<open>_popen\<close> is \<^verbatim>\<open>None\<close>), or its child
  is running, or its child has exited.  Of a running child the state records whether
  \<^verbatim>\<open>SIGTERM\<close> makes it exit: \<^verbatim>\<open>__main__\<close> installs a handler for \<^verbatim>\<open>SIGTERM\<close> before
  \<^verbatim>\<open>setup_viseron()\<close> runs, a forked child inherits it, and the handler does nothing as long
  as its \<^verbatim>\<open>viseron\<close> is \<^verbatim>\<open>None\<close>, so that such a child goes on running.
\<close>

datatype child_status = NotStarted | Running bool | Exited

text \<open>
  What \<^verbatim>\<open>process.start()\<close> does: it forks a child (which exits on \<^verbatim>\<open>SIGTERM\<close> or does not),
  or it raises (\<^verbatim>\<open>OSError\<close> when the fork fails, \<^verbatim>\<open>AssertionError\<close> in a daemonic parent).
\<close>

datatype launch = Launched bool | LaunchRaises exception

text \<open>How a method call ends: it returns, it raises, or it never returns.\<close>

datatype completion = Returns | Raises exception | Blocks

text \<open>
  The state the watchdog works on.  The units are objects: the store \<open>units\<close> holds them and
  a reference is an index into it, so that a unit registered twice is one object.
  \<^verbatim>\<open>ProcessWatchDog.registered_items\<close> is the list of references.  \<open>children\<close> gives the
  status of every \<^verbatim>\<open>mp.Process\<close> object by its handle, \<open>os_start\<close> what the operating system
  will do when the object with that handle is started, \<open>next_handle\<close> names the next
  \<^verbatim>\<open>mp.Process\<close> object to be created, \<open>now\<close> is the reading of
  \<^verbatim>\<open>datetime.datetime.now().timestamp()\<close> (one reading for the whole of a tick), \<open>events\<close>
  the calls made so far.
\<close>

record watchdog_state =
  units :: "RestartableProcess list"
  registered_items :: "nat list"
  children :: "nat \<Rightarrow> child_status"
  os_start :: "nat \<Rightarrow> launch"
  next_handle :: nat
  now :: real
  events :: "process_event list"

text \<open>
  Modelled from the spec: \<^verbatim>\<open>WatchDog.register\<close> is inherited from \<^verbatim>\<open>viseron.watchdog.WatchDog\<close>,
  which is not among the sources.  The spec's registry is "a list of supervised units per
  watchdog instance, appended on \<^verbatim>\<open>start()\<close>/registration".
\<close>

definition register_item :: "nat \<Rightarrow> watchdog_state \<Rightarrow> watchdog_state" where
  "register_item r w = w\<lparr>registered_items := registered_items w @ [r], events := events w @ [Register r]\<rparr>"

text \<open>
  \<^verbatim>\<open>start\<close>: \<^verbatim>\<open>mp.Process(*self._args, **self._kwargs)\<close> raises, and nothing is changed, or
  gives a new object, not started yet; the clock is read and the flag set; then
  \<^verbatim>\<open>self._process.start()\<close> raises, which ends \<^verbatim>\<open>start\<close> with the new object in place, or
  the child is running and the unit is registered when \<^verbatim>\<open>_register\<close> is set.
\<close>

definition start :: "nat \<Rightarrow> watchdog_state \<Rightarrow> completion \<times> watchdog_state" where
  "start r w =
     (let p = units w ! r in
      case process_init_error (args p) (kwargs p) of
        Some e \<Rightarrow> (Raises e, w)
      | None \<Rightarrow>
          let h = next_handle w;
              p1 = p\<lparr>process := Some h, start_time := Some (now w), started := True\<rparr>;
              w1 = w\<lparr>units := (units w)[r := p1], children := (children w)(h := NotStarted),
                     next_handle := Suc h,
                     events := events w @ [ProcessCreate h, ProcessStart h]\<rparr>
          in case os_start w h of
               LaunchRaises e \<Rightarrow> (Raises e, w1)
             | Launched t \<Rightarrow>
                 let w2 = w1\<lparr>children := (children w1)(h := Running t)\<rparr>
                 in (Returns, if register p1 then register_item r w2 else w2))"

text \<open>
  \<^verbatim>\<open>restart\<close>: the flag is cleared.  When there is a process object, \<^verbatim>\<open>terminate()\<close> is
  called on it, which raises \<^verbatim>\<open>AttributeError\<close> on an object that was never started
  (\<^verbatim>\<open>self._popen.terminate()\<close> with \<^verbatim>\<open>_popen\<close> being \<^verbatim>\<open>None\<close>); then \<^verbatim>\<open>join(timeout)\<close>, which
  returns when the child has exited or the timeout has passed, so with the timeout \<^verbatim>\<open>None\<close>
  and a child that goes on running after \<^verbatim>\<open>SIGTERM\<close> it never returns; then \<^verbatim>\<open>kill()\<close>,
  after which the child has exited.  Then \<^verbatim>\<open>start()\<close>.
\<close>

definition restart :: "nat \<Rightarrow> real option \<Rightarrow> watchdog_state \<Rightarrow> completion \<times> watchdog_state" where
  "restart r timeout w =
     (let p = (units w ! r)\<lparr>started := False\<rparr>;
          w1 = w\<lparr>units := (units w)[r := p], events := events w @ [Restart r timeout]\<rparr>
      in case process p of
           None \<Rightarrow> start r w1
         | Some h \<Rightarrow>
             let w2 = w1\<lparr>events := events w1 @ [ProcessTerminate h]\<rparr> in
             (case children w h of
                NotStarted \<Rightarrow> (Raises AttributeError, w2)
              | Exited \<Rightarrow>
                  start r (w2\<lparr>events := events w2 @ [ProcessJoin h timeout, ProcessKill h]\<rparr>)
              | Running t \<Rightarrow>
                  if \<not> t \<and> timeout = None
                  then (Blocks, w2\<lparr>events := events w2 @ [ProcessJoin h timeout]\<rparr>)
                  else start r (w2\<lparr>children := (children w)(h := Exited),
                                   events := events w2 @ [ProcessJoin h timeout, ProcessKill h]\<rparr>)))"

text \<open>\<^verbatim>\<open>return self._process.is_alive() if self._process else False\<close>\<close>

definition is_alive :: "watchdog_state \<Rightarrow> RestartableProcess \<Rightarrow> bool" where
  "is_alive w p =
     (case process p of
        None \<Rightarrow> False
      | Some h \<Rightarrow> (case children w h of Running t \<Rightarrow> True | _ \<Rightarrow> False))"

text \<open>
  The test \<^verbatim>\<open>registered_process.start_time and now - registered_process.start_time <
  registered_process.grace_period\<close>: the left operand is tested for truth, and a float is
  true when it is not zero.
\<close>

definition within_grace :: "real \<Rightarrow> RestartableProcess \<Rightarrow> bool" where
  "within_grace t p =
     (case start_time p of
        None \<Rightarrow> False
      | Some s \<Rightarrow> s \<noteq> 0 \<and> t - s < grace_period p)"

text \<open>The three tests of the loop body of \<^verbatim>\<open>watchdog\<close> that end in \<^verbatim>\<open>continue\<close>.\<close>

definition must_restart :: "watchdog_state \<Rightarrow> RestartableProcess \<Rightarrow> bool" where
  "must_restart w p = (started p \<and> \<not> is_alive w p \<and> \<not> within_grace (now w) p)"


text \<open>The units of the store that are started and not running.\<close>

definition stopped_units :: "watchdog_state \<Rightarrow> RestartableProcess list" where
  "stopped_units w = filter (\<lambda>p. started p \<and> \<not> is_alive w p) (units w)"





lemma is_alive_events [simp]:
  "is_alive (w\<lparr>events := evs\<rparr>) p = is_alive w p"
  by (simp add: is_alive_def split: option.splits)

lemma stopped_units_events [simp]:
  "stopped_units (w\<lparr>events := evs\<rparr>) = stopped_units w"
  by (simp add: stopped_units_def)




subsection \<open>The states the program reaches\<close>

text \<open>
  Every \<^verbatim>\<open>mp.Process\<close> object a unit holds was created earlier: its handle is below the next
  one to be given out.
\<close>

definition handles_created :: "watchdog_state \<Rightarrow> bool" where
  "handles_created w =
     (\<forall>p \<in> set (units w). case process p of None \<Rightarrow> True | Some h \<Rightarrow> h < next_handle w)"

text \<open>Every registry entry refers to a unit of the store.\<close>

definition registry_valid :: "watchdog_state \<Rightarrow> bool" where
  "registry_valid w = (\<forall>r \<in> set (registered_items w). r < length (units w))"

text \<open>
  A unit whose flag is set carries the clock reading of its \<^verbatim>\<open>start\<close>, and a clock reading
  (seconds since 1970) is not zero.
\<close>

definition stamped :: "watchdog_state \<Rightarrow> bool" where
  "stamped w =
     (\<forall>p \<in> set (units w).
        started p \<longrightarrow> (case start_time p of None \<Rightarrow> False | Some s \<Rightarrow> s \<noteq> 0))"


text \<open>
  The calls of a \<^verbatim>\<open>restart(timeout)\<close> of the unit \<open>r\<close> of the state \<open>w\<close> that runs to its end.
\<close>

definition restart_calls :: "nat \<Rightarrow> real option \<Rightarrow> watchdog_state \<Rightarrow> process_event list" where
  "restart_calls r timeout w =
     [Restart r timeout] @
     (case process (units w ! r) of
        None \<Rightarrow> []
      | Some h \<Rightarrow> [ProcessTerminate h, ProcessJoin h timeout, ProcessKill h]) @
     [ProcessCreate (next_handle w), ProcessStart (next_handle w)] @
     (if register (units w ! r) then [Register r] else [])"

subsection \<open>Units for the scenarios\<close>

text \<open>
  \<^verbatim>\<open>RestartableProcess(target=..., daemon=True, name="camera_1", grace_period=20,
  register=True)\<close>, and a second unit of the same kind.
\<close>

definition camera_unit :: RestartableProcess where
  "camera_unit =
     init_process [] (Some ''camera_1'') 20 True [(''target'', ACallable 0), (''daemon'', ABool True)]"


text \<open>
  The state before anything is started: the units in the store, no process object, the
  clock at 1700000000; \<open>os\<close> says what the operating system will do with each start.
\<close>

definition initial_state :: "RestartableProcess list \<Rightarrow> (nat \<Rightarrow> launch) \<Rightarrow> watchdog_state" where
  "initial_state us os =
     \<lparr>units = us, registered_items = [], children = (\<lambda>h. NotStarted), os_start = os,
      next_handle = 0, now = 1700000000, events = []\<rparr>"


definition stubborn_unit_state :: watchdog_state where
  "stubborn_unit_state = snd (start 0 (initial_state [camera_unit] (\<lambda>h. Launched False)))"


text \<open>The state \<open>w\<close> at the clock reading \<open>t\<close>, the children with the handles \<open>hs\<close> having exited.\<close>

definition later :: "real \<Rightarrow> nat list \<Rightarrow> watchdog_state \<Rightarrow> watchdog_state" where
  "later t hs w = w\<lparr>now := t, children := (\<lambda>h. if h \<in> set hs then Exited else children w h)\<rparr>"

section \<open>Registry lemmas\<close>

lemma map_of_setdefault_store:
  "map_of (setdefault_store reg t i sub) =
     (map_of reg)(t \<mapsto> AList.update i sub (case map_of reg t of None \<Rightarrow> [] | Some cbs \<Rightarrow> cbs))"
  by (auto simp: setdefault_store_def AList.update_conv' map_add_def fun_eq_iff
      split: option.splits)

lemma lookup_setdefault_store:
  "lookup_registry (setdefault_store reg t i sub) t' i' =
     (if t' = t \<and> i' = i then Some sub else lookup_registry reg t' i')"
  by (auto simp: lookup_registry_def map_of_setdefault_store AList.update_conv'
      split: option.splits)

lemma registry_ids_append:
  "registry_ids (xs @ ys) = registry_ids xs \<union> registry_ids ys"
  by (auto simp: registry_ids_def)

lemma registry_ids_update:
  "map_of reg t = Some cbs \<Longrightarrow>
   registry_ids (AList.update t cbs' reg) \<subseteq> registry_ids reg \<union> fst ` set cbs'"
proof (induction reg)
  case Nil
  then show ?case by simp
next
  case (Cons p reg)
  then show ?case
    by (cases p) (auto simp: registry_ids_def split: if_splits)
qed

lemma registry_ids_update_mem:
  "map_of reg t = Some cbs \<Longrightarrow> fst ` set cbs' \<subseteq> registry_ids (AList.update t cbs' reg)"
proof (induction reg)
  case Nil
  then show ?case by simp
next
  case (Cons p reg)
  then show ?case
    by (cases p) (auto simp: registry_ids_def split: if_splits)
qed

lemma registry_ids_setdefault_store:
  "i \<in> registry_ids (setdefault_store reg t i sub)"
proof (cases "map_of reg t")
  case None
  then show ?thesis
    by (simp add: setdefault_store_def registry_ids_append) (simp add: registry_ids_def)
next
  case (Some cbs)
  have "i \<in> fst ` set (AList.update i sub cbs)"
    by (simp add: AList.dom_update)
  with registry_ids_update_mem [OF Some, of "AList.update i sub cbs"] Some
  show ?thesis by (auto simp: setdefault_store_def)
qed

lemma lookup_pop_subscription:
  "pop_subscription reg t i = Inr reg' \<Longrightarrow>
   lookup_registry reg' t' i' =
     (if t' = t \<and> i' = i then None else lookup_registry reg t' i')"
  by (auto simp: pop_subscription_def lookup_registry_def AList.update_conv'
      AList.delete_conv' split: option.splits if_splits)

lemma pop_subscription_Inl:
  "pop_subscription reg t i = Inl e \<longleftrightarrow> e = KeyError \<and> lookup_registry reg t i = None"
  by (cases e) (auto simp: pop_subscription_def lookup_registry_def split: option.splits)

lemma pop_subscription_Inr:
  "pop_subscription reg t i = Inr reg' \<Longrightarrow> lookup_registry reg t i \<noteq> None"
  by (auto simp: pop_subscription_def lookup_registry_def split: option.splits)

section \<open>Mailbox lemmas\<close>

lemma length_pop_if_full:
  "0 < n \<Longrightarrow> length q \<le> n \<Longrightarrow> length (pop_if_full n q x) \<le> n"
  by (auto simp: pop_if_full_def)

lemma pop_if_full_drop:
  "0 < n \<Longrightarrow> length q \<le> n \<Longrightarrow>
   pop_if_full n q x = drop (length (q @ [x]) - n) (q @ [x])"
  by (cases q) (auto simp: pop_if_full_def)

lemma foldl_pop_if_full:
  "0 < n \<Longrightarrow> length q \<le> n \<Longrightarrow>
   foldl (pop_if_full n) q xs = drop (length (q @ xs) - n) (q @ xs)"
proof (induction xs arbitrary: q)
  case Nil
  then show ?case by simp
next
  case (Cons x xs)
  have len: "length (pop_if_full n q x) \<le> n"
    using Cons.prems by (rule length_pop_if_full)
  have "foldl (pop_if_full n) (pop_if_full n q x) xs =
          drop (length (pop_if_full n q x @ xs) - n) (pop_if_full n q x @ xs)"
    using Cons.prems(1) len by (rule Cons.IH)
  also have "\<dots> = drop (length (q @ x # xs) - n) (q @ x # xs)"
  proof (cases "length q < n")
    case True
    then show ?thesis by (simp add: pop_if_full_def)
  next
    case False
    with Cons.prems have eq: "length q = n" by simp
    with Cons.prems obtain y q' where q: "q = y # q'" by (cases q) auto
    from eq q have n: "n = Suc (length q')" by simp
    show ?thesis by (simp add: pop_if_full_def q n)
  qed
  finally show ?case by simp
qed

lemma data_queue_publish_all:
  "data_queue (publish_all ds msgs) = foldl (pop_if_full data_queue_maxsize) (data_queue ds) msgs"
proof (induction msgs arbitrary: ds)
  case Nil
  then show ?case by (simp add: publish_all_def)
next
  case (Cons m msgs)
  obtain t x where m: "m = (t, x)" by (cases m)
  have "publish_all ds (m # msgs) = publish_all (publish_data ds t x) msgs"
    by (simp add: publish_all_def m)
  then show ?case
    using Cons.IH [of "publish_data ds t x"] by (simp add: publish_data_def m)
qed


section \<open>Lemmas about topic matching\<close>

lemma translate_plain: "plain s \<Longrightarrow> translate (s @ rest) = map Literal s @ translate rest"
  by (induction s) (auto simp: plain_def)

lemma glob_match_literals:
  "glob_match (map Literal xs @ ts) nm \<longleftrightarrow> (\<exists>r. nm = xs @ r \<and> glob_match ts r)"
proof (induction xs arbitrary: nm)
  case Nil
  then show ?case by simp
next
  case (Cons x xs)
  show ?case
  proof (cases nm)
    case Nil
    then show ?thesis by simp
  next
    case (Cons c nm')
    then show ?thesis using Cons.IH [of nm'] by auto
  qed
qed

lemma glob_match_star:
  "glob_match (Star # ts) nm \<longleftrightarrow> (\<exists>u v. nm = u @ v \<and> glob_match ts v)"
proof (induction nm)
  case Nil
  then show ?case by simp
next
  case (Cons c nm)
  show ?case
  proof
    assume "glob_match (Star # ts) (c # nm)"
    then consider "glob_match ts (c # nm)" | "glob_match (Star # ts) nm" by auto
    then show "\<exists>u v. c # nm = u @ v \<and> glob_match ts v"
    proof cases
      case 1
      then have "c # nm = [] @ (c # nm) \<and> glob_match ts (c # nm)" by simp
      then show ?thesis by blast
    next
      case 2
      with Cons.IH obtain u v where "nm = u @ v" "glob_match ts v" by blast
      then have "c # nm = (c # u) @ v \<and> glob_match ts v" by simp
      then show ?thesis by blast
    qed
  next
    assume "\<exists>u v. c # nm = u @ v \<and> glob_match ts v"
    then obtain u v where uv: "c # nm = u @ v" "glob_match ts v" by blast
    show "glob_match (Star # ts) (c # nm)"
    proof (cases u)
      case Nil
      with uv have "glob_match ts (c # nm)" by simp
      then show ?thesis by simp
    next
      case (Cons a u')
      with uv have "nm = u' @ v" by simp
      with uv(2) Cons.IH have "glob_match (Star # ts) nm" by blast
      then show ?thesis by simp
    qed
  qed
qed

lemma glob_match_literals_only: "glob_match (map Literal xs) nm \<longleftrightarrow> nm = xs"
  using glob_match_literals [of xs "[]" nm] by auto

lemma fnmatch_one_star:
  assumes "plain pre" "plain suf"
  shows "fnmatch nm (pre @ CHR ''*'' # suf) \<longleftrightarrow> (\<exists>mid. nm = pre @ mid @ suf)"
proof -
  have "translate (pre @ CHR ''*'' # suf) = map Literal pre @ Star # map Literal suf"
    using translate_plain [OF assms(1), of "CHR ''*'' # suf"]
      translate_plain [OF assms(2), of "[]"] by simp
  then show ?thesis
    by (auto simp: fnmatch_def glob_match_literals glob_match_star glob_match_literals_only)
qed

lemma spec_segments_nonempty: "spec_segments t \<noteq> []"
  by (induction t) (auto split: list.splits)

lemma spec_segments_single_empty: "spec_segments t = [[]] \<Longrightarrow> t = []"
  using spec_segments_nonempty by (cases t) (auto split: list.splits if_splits)

lemma spec_segments_empty_head:
  "spec_segments t = [] # ss \<Longrightarrow> ss \<noteq> [] \<Longrightarrow> \<exists>t'. t = CHR ''/'' # t' \<and> spec_segments t' = ss"
  by (cases t) (auto simp: spec_segments_nonempty split: list.splits if_splits)

lemma spec_segments_char_head:
  "spec_segments t = (x # s0) # ss \<Longrightarrow> \<exists>t'. t = x # t' \<and> spec_segments t' = s0 # ss"
  by (cases t) (auto simp: spec_segments_nonempty split: list.splits if_splits)

lemma spec_segments_first:
  "spec_segments t = st # sst \<Longrightarrow> \<exists>rest. t = st @ rest \<and> spec_segments rest = [] # sst"
proof (induction st arbitrary: t)
  case Nil
  then show ?case by simp
next
  case (Cons x st)
  from spec_segments_char_head [OF Cons.prems] obtain t' where
    t': "t = x # t'" "spec_segments t' = st # sst" by blast
  from Cons.IH [OF t'(2)] obtain rest where "t' = st @ rest" "spec_segments rest = [] # sst"
    by blast
  with t'(1) have "t = (x # st) @ rest \<and> spec_segments rest = [] # sst" by simp
  then show ?case by blast
qed

lemma translate_stars_only:
  "CHR ''?'' \<notin> set p \<Longrightarrow> CHR ''['' \<notin> set p \<Longrightarrow>
   translate p = map (\<lambda>c. if c = CHR ''*'' then Star else Literal c) p"
  by (induction p) auto

lemma glob_match_star_skip: "glob_match ts nm \<Longrightarrow> glob_match (Star # ts) (u @ nm)"
  using glob_match_star by blast

lemma segment_match_glob:
  "list_all2 (\<lambda>p t. p = ''*'' \<or> p = t) (spec_segments p) (spec_segments t) \<Longrightarrow>
   glob_match (map (\<lambda>c. if c = CHR ''*'' then Star else Literal c) p) t"
proof (induction p arbitrary: t)
  case Nil
  then have "spec_segments t = [[]]"
    by (auto simp: list_all2_Cons1)
  then have "t = []" by (rule spec_segments_single_empty)
  then show ?case by simp
next
  case (Cons c p)
  let ?tok = "\<lambda>c. if c = CHR ''*'' then Star else Literal c"
  let ?R = "\<lambda>p t. p = ''*'' \<or> p = t"
  show ?case
  proof (cases "c = CHR ''/''")
    case True
    with Cons.prems obtain ss where
      st: "spec_segments t = [] # ss" and rest: "list_all2 ?R (spec_segments p) ss"
      by (auto simp: list_all2_Cons1)
    from rest spec_segments_nonempty [of p] have "ss \<noteq> []" by auto
    from spec_segments_empty_head [OF st this] obtain t' where
      t': "t = CHR ''/'' # t'" "spec_segments t' = ss" by blast
    from Cons.IH [of t'] rest t'(2) have "glob_match (map ?tok p) t'" by simp
    then show ?thesis using True t'(1) by simp
  next
    case False
    obtain s0 ss0 where sp: "spec_segments p = s0 # ss0"
      using spec_segments_nonempty [of p] by (cases "spec_segments p") auto
    with False have spc: "spec_segments (c # p) = (c # s0) # ss0" by simp
    with Cons.prems obtain st sst where
      stt: "spec_segments t = st # sst" and hd: "c # s0 = ''*'' \<or> c # s0 = st"
      and rest: "list_all2 ?R ss0 sst"
      by (auto simp: list_all2_Cons1)
    from hd show ?thesis
    proof
      assume star: "c # s0 = ''*''"
      then have c: "c = CHR ''*''" and s0: "s0 = []" by simp_all
      from spec_segments_first [OF stt] obtain r where
        r: "t = st @ r" "spec_segments r = [] # sst" by blast
      have "list_all2 ?R (spec_segments p) (spec_segments r)"
        using sp s0 r(2) rest by simp
      from Cons.IH [OF this] have "glob_match (map ?tok p) r" .
      then have "glob_match (Star # map ?tok p) (st @ r)" by (rule glob_match_star_skip)
      then show ?thesis using c r(1) by simp
    next
      assume eq: "c # s0 = st"
      with stt have "spec_segments t = (c # s0) # sst" by simp
      from spec_segments_char_head [OF this] obtain t' where
        t': "t = c # t'" "spec_segments t' = s0 # sst" by blast
      have "list_all2 ?R (spec_segments p) (spec_segments t')"
        using sp t'(2) rest by simp
      from Cons.IH [OF this] have m: "glob_match (map ?tok p) t'" .
      show ?thesis
      proof (cases "c = CHR ''*''")
        case True
        from m have "glob_match (Star # map ?tok p) ([] @ t')" by (rule glob_match_star_skip)
        then show ?thesis using True t'(1) by simp
      next
        case False
        with m t'(1) show ?thesis by simp
      qed
    qed
  qed
qed

lemma spec_segment_match_fnmatch:
  "CHR ''?'' \<notin> set pat \<Longrightarrow> CHR ''['' \<notin> set pat \<Longrightarrow> spec_segment_match pat topic \<Longrightarrow>
   fnmatch topic pat"
  by (simp add: fnmatch_def translate_stars_only spec_segment_match_def segment_match_glob)

section \<open>Lemmas about the dispatcher\<close>

lemma start_thread_event_ids:
  "start_thread m obs = (res, m', obs', evs) \<Longrightarrow> e \<in> set evs \<Longrightarrow> event_id e = None"
proof (induction m obs arbitrary: res m' obs' evs rule: start_thread.induct)
  case (1 m)
  then show ?case by simp
next
  case (2 m a r obs)
  show ?case
  proof (cases "a > m")
    case True
    obtain res1 m1 obs1 evs1 where st: "start_thread m obs = (res1, m1, obs1, evs1)"
      by (cases "start_thread m obs") auto
    with True "2.prems"(1) have evs: "evs = TimeSleep # evs1" by simp
    show ?thesis
      using "2.IH"(1) [OF True st] "2.prems"(2) evs by auto
  next
    case False
    show ?thesis
    proof (cases r)
      case Started
      with False "2.prems" show ?thesis by simp
    next
      case CantStartNewThread
      obtain res1 m1 obs1 evs1 where
        st: "start_thread (revised_ceiling a) obs = (res1, m1, obs1, evs1)"
        by (cases "start_thread (revised_ceiling a) obs") auto
      with False CantStartNewThread "2.prems"(1) have evs: "evs = LoggerDebug m a # evs1"
        by simp
      show ?thesis
        using "2.IH"(2) [OF False CantStartNewThread st] "2.prems"(2) evs by auto
    next
      case OtherRuntimeError
      with False "2.prems" show ?thesis by simp
    qed
  qed
qed

lemma start_thread_suffix:
  "start_thread m obs = (res, m', obs', evs) \<Longrightarrow> \<exists>used. obs = used @ obs'"
proof (induction m obs arbitrary: res m' obs' evs rule: start_thread.induct)
  case (1 m)
  then show ?case by simp
next
  case (2 m a r obs)
  show ?case
  proof (cases "a > m")
    case True
    obtain res1 m1 obs1 evs1 where st: "start_thread m obs = (res1, m1, obs1, evs1)"
      by (cases "start_thread m obs") auto
    with True "2.prems"(1) have "obs' = obs1" by simp
    with "2.IH"(1) [OF True st] obtain used where "obs = used @ obs'" by blast
    then have "(a, r) # obs = ((a, r) # used) @ obs'" by simp
    then show ?thesis by blast
  next
    case False
    show ?thesis
    proof (cases r)
      case Started
      with False "2.prems" have "(a, r) # obs = [(a, r)] @ obs'" by simp
      then show ?thesis by blast
    next
      case CantStartNewThread
      obtain res1 m1 obs1 evs1 where
        st: "start_thread (revised_ceiling a) obs = (res1, m1, obs1, evs1)"
        by (cases "start_thread (revised_ceiling a) obs") auto
      with False CantStartNewThread "2.prems"(1) have "obs' = obs1" by simp
      with "2.IH"(2) [OF False CantStartNewThread st] obtain used where "obs = used @ obs'"
        by blast
      then have "(a, r) # obs = ((a, r) # used) @ obs'" by simp
      then show ?thesis by blast
    next
      case OtherRuntimeError
      with False "2.prems" have "(a, r) # obs = [(a, r)] @ obs'" by simp
      then show ?thesis by blast
    qed
  qed
qed

lemma start_thread_clean:
  "clean obs \<Longrightarrow> fst (start_thread m obs) \<noteq> Abandoned"
proof (induction m obs rule: start_thread.induct)
  case (1 m)
  then show ?case by simp
next
  case (2 m a r obs)
  from "2.prems" have r: "r \<noteq> OtherRuntimeError" and c: "clean obs"
    by (auto simp: clean_def)
  show ?case
  proof (cases "a > m")
    case True
    with "2.IH"(1) [OF True c] show ?thesis
      by (auto split: prod.splits)
  next
    case False
    show ?thesis
    proof (cases r)
      case Started
      with False show ?thesis by simp
    next
      case CantStartNewThread
      with False "2.IH"(2) [OF False CantStartNewThread c] show ?thesis
        by (auto split: prod.splits)
    next
      case OtherRuntimeError
      with r show ?thesis by simp
    qed
  qed
qed

lemma clean_suffix: "clean (used @ obs) \<Longrightarrow> clean obs"
  by (auto simp: clean_def)

lemma events_of_append [simp]: "events_of i (xs @ ys) = events_of i xs @ events_of i ys"
  by (simp add: events_of_def)

lemma events_of_no_id: "(\<And>e. e \<in> set evs \<Longrightarrow> event_id e = None) \<Longrightarrow> events_of i evs = []"
  by (induction evs) (auto simp: events_of_def)

lemma event_id_delivery [simp]: "event_id (delivery sid sub data) = Some sid"
  by (simp add: delivery_def split: callback_kind.splits option.splits)

lemma events_of_delivery:
  "events_of i [delivery sid sub data] = (if i = sid then [delivery sid sub data] else [])"
  by (auto simp: events_of_def)

lemma run_callback_trace:
  assumes "run_callback d sid sub data = Some d'" and "clean (observations d)"
  shows "\<exists>evs. trace d' = trace d @ evs \<and>
           (\<forall>i. events_of i evs = (if i = sid then [delivery sid sub data] else [])) \<and>
           clean (observations d')"
proof (cases "\<exists>f. callback sub = Callable f \<and> ioloop sub = None")
  case True
  then obtain f where f: "callback sub = Callable f" "ioloop sub = None" by blast
  obtain res m obs evs where
    st: "start_thread (max_threads d) (observations d) = (res, m, obs, evs)"
    by (cases "start_thread (max_threads d) (observations d)") auto
  have "res \<noteq> Abandoned"
    using start_thread_clean [OF assms(2), of "max_threads d"] st by simp
  moreover have "res \<noteq> Retrying"
    using assms(1) f st by (auto simp: run_callback_def)
  ultimately have res: "res = Spawned" by (cases res) auto
  have d': "d' = d\<lparr>max_threads := m, observations := obs,
       trace := trace d @ evs @ [ThreadStart sid f (payload_args data)]\<rparr>"
    using assms(1) f st res by (simp add: run_callback_def)
  have none: "\<And>i. events_of i evs = []"
    using start_thread_event_ids [OF st] by (rule events_of_no_id)
  obtain used where "observations d = used @ obs"
    using start_thread_suffix [OF st] by blast
  with assms(2) have c: "clean obs" by (simp add: clean_suffix)
  have del: "delivery sid sub data = ThreadStart sid f (payload_args data)"
    using f by (simp add: delivery_def)
  have "trace d' = trace d @ (evs @ [delivery sid sub data])"
    using d' del by simp
  moreover have "\<forall>i. events_of i (evs @ [delivery sid sub data]) =
      (if i = sid then [delivery sid sub data] else [])"
    using none by (simp add: events_of_delivery)
  moreover have "clean (observations d')" using d' c by simp
  ultimately show ?thesis by blast
next
  case False
  then have d': "d' = emit d (delivery sid sub data)"
    using assms(1)
    by (auto simp: run_callback_def delivery_def split: callback_kind.splits option.splits)
  have "trace d' = trace d @ [delivery sid sub data]"
    using d' by (simp add: emit_def)
  moreover have "clean (observations d')"
    using d' assms(2) by (simp add: emit_def)
  ultimately show ?thesis
    using events_of_delivery by blast
qed

lemma deliveries_Cons:
  "deliveries i ((sid, sub) # cbs) data =
     (if i = sid then [delivery sid sub data] else []) @ deliveries i cbs data"
  by (auto simp: deliveries_def)

lemma run_callbacks_trace:
  "run_callbacks d cbs data = Some d' \<Longrightarrow> clean (observations d) \<Longrightarrow>
   \<exists>evs. trace d' = trace d @ evs \<and> (\<forall>i. events_of i evs = deliveries i cbs data) \<and>
         clean (observations d')"
proof (induction cbs arbitrary: d)
  case Nil
  then have "trace d' = trace d @ [] \<and> (\<forall>i. events_of i [] = deliveries i [] data) \<and>
      clean (observations d')"
    by (simp add: events_of_def deliveries_def)
  then show ?case by blast
next
  case (Cons p cbs)
  obtain sid sub where p: "p = (sid, sub)" by (cases p)
  from Cons.prems(1) p obtain d1 where
    one: "run_callback d sid sub data = Some d1" and
    more: "run_callbacks d1 cbs data = Some d'"
    by (auto split: option.splits)
  from run_callback_trace [OF one Cons.prems(2)] obtain evs1 where
    e1: "trace d1 = trace d @ evs1"
      "\<forall>i. events_of i evs1 = (if i = sid then [delivery sid sub data] else [])"
      "clean (observations d1)"
    by blast
  from Cons.IH [OF more e1(3)] obtain evs2 where
    e2: "trace d' = trace d1 @ evs2" "\<forall>i. events_of i evs2 = deliveries i cbs data"
      "clean (observations d')"
    by blast
  have "trace d' = trace d @ (evs1 @ evs2)" using e1(1) e2(1) by simp
  moreover have "\<forall>i. events_of i (evs1 @ evs2) = deliveries i (p # cbs) data"
    using e1(2) e2(2) by (simp add: p deliveries_Cons)
  ultimately show ?case using e2(3) by blast
qed

lemma deliveries_absent: "sid \<notin> fst ` set cbs \<Longrightarrow> deliveries sid cbs data = []"
  by (induction cbs) (auto simp: deliveries_def)

lemma deliveries_unique:
  "distinct (map fst cbs) \<Longrightarrow> map_of cbs sid = Some sub \<Longrightarrow>
   deliveries sid cbs data = [delivery sid sub data]"
proof (induction cbs)
  case Nil
  then show ?case by simp
next
  case (Cons p cbs)
  obtain i s where p: "p = (i, s)" by (cases p)
  show ?case
  proof (cases "i = sid")
    case True
    with Cons.prems p have "s = sub" and "sid \<notin> fst ` set cbs" by auto
    then show ?thesis
      using True p by (simp add: deliveries_Cons deliveries_absent)
  next
    case False
    with Cons p show ?thesis by (simp add: deliveries_Cons)
  qed
qed

lemma matching_deliveries_Cons:
  "matching_deliveries sid ((p, cbs) # reg) item =
     (if fnmatch (fst item) p then deliveries sid cbs (snd item) else []) @
     matching_deliveries sid reg item"
  by (simp add: matching_deliveries_def)

lemma registry_ids_Cons: "registry_ids ((p, cbs) # reg) = fst ` set cbs \<union> registry_ids reg"
  by (simp add: registry_ids_def)

lemma matching_deliveries_absent:
  "sid \<notin> registry_ids reg \<Longrightarrow> matching_deliveries sid reg item = []"
proof (induction reg)
  case Nil
  then show ?case by (simp add: matching_deliveries_def)
next
  case (Cons e reg)
  obtain p cbs where e: "e = (p, cbs)" by (cases e)
  with Cons show ?case
    by (simp add: matching_deliveries_Cons registry_ids_Cons deliveries_absent)
qed

lemma matching_deliveries_unique:
  "distinct (map fst reg) \<Longrightarrow> map_of reg p = Some cbs \<Longrightarrow>
   sid \<notin> registry_ids (AList.delete p reg) \<Longrightarrow>
   matching_deliveries sid reg item =
     (if fnmatch (fst item) p then deliveries sid cbs (snd item) else [])"
proof (induction reg)
  case Nil
  then show ?case by simp
next
  case (Cons e reg)
  obtain q cbs' where e: "e = (q, cbs')" by (cases e)
  show ?case
  proof (cases "q = p")
    case True
    with Cons.prems e have same: "cbs' = cbs" and notin: "p \<notin> fst ` set reg" by auto
    from notin have "AList.delete p reg = reg" by simp
    with Cons.prems(3) e True have "sid \<notin> registry_ids reg" by simp
    then show ?thesis
      using e True same by (simp add: matching_deliveries_Cons matching_deliveries_absent)
  next
    case False
    with Cons.prems e have d: "distinct (map fst reg)" and m: "map_of reg p = Some cbs"
      and n: "sid \<notin> registry_ids (AList.delete p reg)" and a: "sid \<notin> fst ` set cbs'"
      by (auto simp: registry_ids_Cons)
    show ?thesis
      using Cons.IH [OF d m n] a e by (simp add: matching_deliveries_Cons deliveries_absent)
  qed
qed

lemma wildcard_loop_trace:
  "wildcard_loop reg d item = Some d' \<Longrightarrow> clean (observations d) \<Longrightarrow>
   \<exists>evs. trace d' = trace d @ evs \<and> (\<forall>i. events_of i evs = matching_deliveries i reg item) \<and>
         clean (observations d')"
proof (induction reg arbitrary: d)
  case Nil
  then have "trace d' = trace d @ [] \<and>
      (\<forall>i. events_of i [] = matching_deliveries i [] item) \<and> clean (observations d')"
    by (simp add: events_of_def matching_deliveries_def)
  then show ?case by blast
next
  case (Cons e reg)
  obtain p cbs where e: "e = (p, cbs)" by (cases e)
  show ?case
  proof (cases "fnmatch (fst item) p")
    case True
    with Cons.prems(1) e obtain d1 where
      one: "run_callbacks d cbs (snd item) = Some d1" and
      more: "wildcard_loop reg d1 item = Some d'"
      by (auto split: option.splits)
    from run_callbacks_trace [OF one Cons.prems(2)] obtain evs1 where
      e1: "trace d1 = trace d @ evs1" "\<forall>i. events_of i evs1 = deliveries i cbs (snd item)"
        "clean (observations d1)"
      by blast
    from Cons.IH [OF more e1(3)] obtain evs2 where
      e2: "trace d' = trace d1 @ evs2" "\<forall>i. events_of i evs2 = matching_deliveries i reg item"
        "clean (observations d')"
      by blast
    have "trace d' = trace d @ (evs1 @ evs2)" using e1(1) e2(1) by simp
    moreover have "\<forall>i. events_of i (evs1 @ evs2) = matching_deliveries i (e # reg) item"
      using e1(2) e2(2) True by (simp add: e matching_deliveries_Cons)
    ultimately show ?thesis using e2(3) by blast
  next
    case False
    with Cons.prems(1) e have more: "wildcard_loop reg d item = Some d'" by simp
    from Cons.IH [OF more Cons.prems(2)] obtain evs where
      "trace d' = trace d @ evs" "\<forall>i. events_of i evs = matching_deliveries i reg item"
      "clean (observations d')"
      by blast
    then show ?thesis
      using False by (auto simp: e matching_deliveries_Cons)
  qed
qed

lemma dispatch_trace:
  assumes "dispatch ds d item = Some d'" and "clean (observations d)"
  shows "\<exists>evs. trace d' = trace d @ evs \<and>
     (\<forall>i. events_of i evs =
        deliveries i (case map_of (subscribers ds) (fst item) of None \<Rightarrow> [] | Some cbs \<Rightarrow> cbs)
          (snd item) @
        matching_deliveries i (wildcard_subscribers ds) item) \<and>
     clean (observations d')"
proof -
  from assms(1) obtain d1 where
    one: "static_subscriptions ds d item = Some d1" and
    two: "wildcard_subscriptions ds d1 item = Some d'"
    by (auto simp: dispatch_def split: option.splits)
  let ?cbs = "case map_of (subscribers ds) (fst item) of None \<Rightarrow> [] | Some cbs \<Rightarrow> cbs"
  from one have "run_callbacks d ?cbs (snd item) = Some d1"
    by (simp add: static_subscriptions_def)
  from run_callbacks_trace [OF this assms(2)] obtain evs1 where
    e1: "trace d1 = trace d @ evs1" "\<forall>i. events_of i evs1 = deliveries i ?cbs (snd item)"
      "clean (observations d1)"
    by blast
  from two have "wildcard_loop (wildcard_subscribers ds) d1 item = Some d'"
    by (simp add: wildcard_subscriptions_def)
  from wildcard_loop_trace [OF this e1(3)] obtain evs2 where
    e2: "trace d' = trace d1 @ evs2"
      "\<forall>i. events_of i evs2 = matching_deliveries i (wildcard_subscribers ds) item"
      "clean (observations d')"
    by blast
  have "trace d' = trace d @ (evs1 @ evs2)" using e1(1) e2(1) by simp
  moreover have "\<forall>i. events_of i (evs1 @ evs2) =
      deliveries i ?cbs (snd item) @ matching_deliveries i (wildcard_subscribers ds) item"
    using e1(2) e2(2) by simp
  ultimately show ?thesis using e2(3) by blast
qed

lemma calm_clean: "calm m obs \<Longrightarrow> clean obs"
  by (force simp: calm_def clean_def)

lemma start_thread_calm:
  "calm m (ob # obs) \<Longrightarrow> start_thread m (ob # obs) = (Spawned, m, obs, [])"
  by (cases ob) (auto simp: calm_def)

lemma calm_tl: "calm m (ob # obs) \<Longrightarrow> calm m obs"
  by (simp add: calm_def)

lemma run_callback_calm:
  assumes "calm (max_threads d) (observations d)" and "0 < length (observations d)"
  shows "\<exists>d'. run_callback d sid sub data = Some d' \<and> max_threads d' = max_threads d \<and>
     calm (max_threads d') (observations d') \<and>
     length (observations d) \<le> Suc (length (observations d'))"
proof (cases "\<exists>f. callback sub = Callable f \<and> ioloop sub = None")
  case True
  then obtain f where f: "callback sub = Callable f" "ioloop sub = None" by blast
  from assms(2) obtain ob obs where o: "observations d = ob # obs"
    by (cases "observations d") auto
  have st: "start_thread (max_threads d) (observations d) = (Spawned, max_threads d, obs, [])"
    using assms(1) o start_thread_calm by simp
  have "run_callback d sid sub data =
      Some (d\<lparr>max_threads := max_threads d, observations := obs,
              trace := trace d @ [] @ [ThreadStart sid f (payload_args data)]\<rparr>)"
    using f st by (simp add: run_callback_def)
  moreover have "calm (max_threads d) obs"
    using assms(1) o calm_tl by simp
  ultimately show ?thesis using o by simp
next
  case False
  then have "run_callback d sid sub data = Some (emit d (delivery sid sub data))"
    by (auto simp: run_callback_def delivery_def split: callback_kind.splits option.splits)
  then show ?thesis using assms(1) by (simp add: emit_def)
qed

lemma run_callbacks_calm:
  "calm (max_threads d) (observations d) \<Longrightarrow> length cbs \<le> length (observations d) \<Longrightarrow>
   \<exists>d'. run_callbacks d cbs data = Some d' \<and> max_threads d' = max_threads d \<and>
     calm (max_threads d') (observations d') \<and>
     length (observations d) \<le> length (observations d') + length cbs"
proof (induction cbs arbitrary: d)
  case Nil
  then show ?case by simp
next
  case (Cons p cbs)
  obtain sid sub where p: "p = (sid, sub)" by (cases p)
  from Cons.prems(2) have pos: "0 < length (observations d)"
    by (cases "observations d") auto
  from run_callback_calm [OF Cons.prems(1) pos, of sid sub data] obtain d1 where
    d1: "run_callback d sid sub data = Some d1" "max_threads d1 = max_threads d"
      "calm (max_threads d1) (observations d1)"
      "length (observations d) \<le> Suc (length (observations d1))"
    by blast
  from Cons.prems(2) d1(4) have len: "length cbs \<le> length (observations d1)" by simp
  from Cons.IH [OF d1(3) len] obtain d' where
    d': "run_callbacks d1 cbs data = Some d'" "max_threads d' = max_threads d1"
      "calm (max_threads d') (observations d')"
      "length (observations d1) \<le> length (observations d') + length cbs"
    by blast
  have "run_callbacks d (p # cbs) data = Some d'" using p d1(1) d'(1) by simp
  moreover have "max_threads d' = max_threads d" using d1(2) d'(2) by simp
  moreover have "length (observations d) \<le> length (observations d') + length (p # cbs)"
    using d1(4) d'(4) by simp
  ultimately show ?case using d'(3) by blast
qed

lemma registry_size_Cons: "registry_size ((p, cbs) # reg) = length cbs + registry_size reg"
  by (simp add: registry_size_def)

lemma wildcard_loop_calm:
  "calm (max_threads d) (observations d) \<Longrightarrow> registry_size reg \<le> length (observations d) \<Longrightarrow>
   \<exists>d'. wildcard_loop reg d item = Some d'"
proof (induction reg arbitrary: d)
  case Nil
  then show ?case by simp
next
  case (Cons e reg)
  obtain p cbs where e: "e = (p, cbs)" by (cases e)
  from Cons.prems(2) e have sz: "length cbs + registry_size reg \<le> length (observations d)"
    by (simp add: registry_size_Cons)
  show ?case
  proof (cases "fnmatch (fst item) p")
    case True
    from sz have "length cbs \<le> length (observations d)" by simp
    from run_callbacks_calm [OF Cons.prems(1) this, of "snd item"] obtain d1 where
      d1: "run_callbacks d cbs (snd item) = Some d1" "max_threads d1 = max_threads d"
        "calm (max_threads d1) (observations d1)"
        "length (observations d) \<le> length (observations d1) + length cbs"
      by blast
    from sz d1(4) have "registry_size reg \<le> length (observations d1)" by simp
    from Cons.IH [OF d1(3) this] obtain d' where "wildcard_loop reg d1 item = Some d'"
      by blast
    then show ?thesis using True e d1(1) by simp
  next
    case False
    from sz have "registry_size reg \<le> length (observations d)" by simp
    from Cons.IH [OF Cons.prems(1) this] obtain d' where "wildcard_loop reg d item = Some d'"
      by blast
    then show ?thesis using False e by simp
  qed
qed

lemma length_entry_le_registry_size:
  "map_of reg t = Some cbs \<Longrightarrow> length cbs \<le> registry_size reg"
proof (induction reg)
  case Nil
  then show ?case by simp
next
  case (Cons e reg)
  obtain p c where e: "e = (p, c)" by (cases e)
  with Cons show ?case
    by (cases "p = t") (auto simp: registry_size_Cons)
qed

lemma dispatch_calm:
  assumes "calm (max_threads d) (observations d)"
    and "registry_size (subscribers ds) + registry_size (wildcard_subscribers ds)
           \<le> length (observations d)"
  shows "\<exists>d'. dispatch ds d item = Some d'"
proof -
  let ?cbs = "case map_of (subscribers ds) (fst item) of None \<Rightarrow> [] | Some cbs \<Rightarrow> cbs"
  have "length ?cbs \<le> registry_size (subscribers ds)"
    by (auto split: option.splits dest: length_entry_le_registry_size)
  with assms(2) have l1: "length ?cbs \<le> length (observations d)" by simp
  from run_callbacks_calm [OF assms(1) l1, of "snd item"] obtain d1 where
    d1: "run_callbacks d ?cbs (snd item) = Some d1" "max_threads d1 = max_threads d"
      "calm (max_threads d1) (observations d1)"
      "length (observations d) \<le> length (observations d1) + length ?cbs"
    by blast
  have "registry_size (wildcard_subscribers ds) \<le> length (observations d1)"
    using assms(2) d1(4) \<open>length ?cbs \<le> registry_size (subscribers ds)\<close> by simp
  from wildcard_loop_calm [OF d1(3) this] obtain d' where
    "wildcard_loop (wildcard_subscribers ds) d1 item = Some d'" by blast
  then have "dispatch ds d item = Some d'"
    using d1(1) by (simp add: dispatch_def static_subscriptions_def wildcard_subscriptions_def)
  then show ?thesis by blast
qed

lemma start_thread_retrying_extend:
  "start_thread m obs = (Retrying, m', obs', evs) \<Longrightarrow> a \<le> m' \<Longrightarrow>
   start_thread m (obs @ [(a, Started)]) = (Spawned, m', [], evs)"
proof (induction m obs arbitrary: m' obs' evs rule: start_thread.induct)
  case (1 m)
  then show ?case by simp
next
  case (2 m b r obs)
  show ?case
  proof (cases "b > m")
    case True
    obtain res1 m1 obs1 evs1 where st: "start_thread m obs = (res1, m1, obs1, evs1)"
      by (cases "start_thread m obs") auto
    with True "2.prems"(1) have eqs: "res1 = Retrying" "m1 = m'" "evs = TimeSleep # evs1"
      by simp_all
    from st eqs have "start_thread m obs = (Retrying, m', obs1, evs1)" by simp
    from "2.IH"(1) [OF True this "2.prems"(2)] show ?thesis
      using True eqs by simp
  next
    case False
    show ?thesis
    proof (cases r)
      case Started
      with False "2.prems" show ?thesis by simp
    next
      case CantStartNewThread
      obtain res1 m1 obs1 evs1 where
        st: "start_thread (revised_ceiling b) obs = (res1, m1, obs1, evs1)"
        by (cases "start_thread (revised_ceiling b) obs") auto
      with False CantStartNewThread "2.prems"(1)
      have eqs: "res1 = Retrying" "m1 = m'" "evs = LoggerDebug m b # evs1"
        by simp_all
      from st eqs have "start_thread (revised_ceiling b) obs = (Retrying, m', obs1, evs1)"
        by simp
      from "2.IH"(2) [OF False CantStartNewThread this "2.prems"(2)] show ?thesis
        using False CantStartNewThread eqs by simp
    next
      case OtherRuntimeError
      with False "2.prems" show ?thesis by simp
    qed
  qed
qed

lemma revised_ceiling_mono: "a \<le> m \<Longrightarrow> revised_ceiling a \<le> revised_ceiling m"
  by (simp add: revised_ceiling_def div_le_mono)

lemma revised_ceiling_less: "0 < a \<Longrightarrow> revised_ceiling a < a"
  by (simp add: revised_ceiling_def) 

lemma run_callback_direct:
  assumes "callback sub = Callable f" and "ioloop sub = None"
    and "clean (observations d)"
  shows "case run_callback d sid sub data of
           None \<Rightarrow> fst (start_thread (max_threads d) (observations d)) = Retrying
         | Some d' \<Rightarrow> \<exists>evs. trace d' = trace d @ evs @ [ThreadStart sid f (payload_args data)] \<and>
                        events_of sid evs = []"
proof -
  obtain res m obs evs where
    st: "start_thread (max_threads d) (observations d) = (res, m, obs, evs)"
    by (cases "start_thread (max_threads d) (observations d)") auto
  have na: "res \<noteq> Abandoned"
    using start_thread_clean [OF assms(3), of "max_threads d"] st by simp
  have none: "events_of sid evs = []"
    using start_thread_event_ids [OF st] by (rule events_of_no_id)
  show ?thesis
  proof (cases res)
    case Spawned
    then show ?thesis using assms(1,2) st none by (simp add: run_callback_def)
  next
    case Abandoned
    with na show ?thesis by simp
  next
    case Retrying
    then show ?thesis using assms(1,2) st by (simp add: run_callback_def)
  qed
qed

lemma run_callback_unsupported:
  "\<not> supported sub \<Longrightarrow> run_callback d sid sub data = Some (emit d (LoggerError sid))"
  by (auto simp: supported_def run_callback_def split: callback_kind.splits option.splits)

lemma filter_keeps_unlabelled:
  "(\<And>e. e \<in> set evs \<Longrightarrow> event_id e = None) \<Longrightarrow>
   filter (\<lambda>e. e \<noteq> LoggerError sid) evs = evs"
proof -
  assume a: "\<And>e. e \<in> set evs \<Longrightarrow> event_id e = None"
  have "\<forall>e \<in> set evs. e \<noteq> LoggerError sid"
  proof
    fix e assume "e \<in> set evs"
    then have "event_id e = None" by (rule a)
    then show "e \<noteq> LoggerError sid" by auto
  qed
  then show ?thesis by (simp add: filter_id_conv)
qed

lemma without_error_emit_error [simp]:
  "without_error sid (emit d (LoggerError sid)) = without_error sid d"
  by (simp add: without_error_def emit_def)

lemma without_error_emit_other:
  "e \<noteq> LoggerError sid \<Longrightarrow> without_error sid (emit d e) = emit (without_error sid d) e"
  by (simp add: without_error_def emit_def)

lemma run_callback_without_error:
  assumes "i \<noteq> sid"
  shows "run_callback (without_error sid d) i sub data =
     map_option (without_error sid) (run_callback d i sub data)"
proof (cases "\<exists>f. callback sub = Callable f \<and> ioloop sub = None")
  case True
  then obtain f where f: "callback sub = Callable f" "ioloop sub = None" by blast
  obtain res m obs evs where
    st: "start_thread (max_threads d) (observations d) = (res, m, obs, evs)"
    by (cases "start_thread (max_threads d) (observations d)") auto
  have keep: "filter (\<lambda>e. e \<noteq> LoggerError sid) evs = evs"
    using start_thread_event_ids [OF st] by (rule filter_keeps_unlabelled)
  show ?thesis
    using f st keep by (cases res) (simp_all add: run_callback_def without_error_def)
next
  case False
  then have "\<And>d. run_callback d i sub data = Some (emit d (delivery i sub data))"
    by (auto simp: run_callback_def delivery_def split: callback_kind.splits option.splits)
  moreover have "delivery i sub data \<noteq> LoggerError sid"
    using assms by (auto simp: delivery_def split: callback_kind.splits option.splits)
  ultimately show ?thesis by (simp add: without_error_emit_other)
qed

lemma run_callbacks_without_error:
  "unsupported_in sid cbs \<Longrightarrow>
   run_callbacks (without_error sid d) (AList.delete sid cbs) data =
     map_option (without_error sid) (run_callbacks d cbs data)"
proof (induction cbs arbitrary: d)
  case Nil
  then show ?case by simp
next
  case (Cons p cbs)
  obtain i sub where p: "p = (i, sub)" by (cases p)
  from Cons.prems p have rest: "unsupported_in sid cbs"
    by (simp add: unsupported_in_def)
  show ?case
  proof (cases "i = sid")
    case True
    with Cons.prems p have "\<not> supported sub" by (simp add: unsupported_in_def)
    then have "run_callback d sid sub data = Some (emit d (LoggerError sid))"
      by (rule run_callback_unsupported)
    then show ?thesis
      using True p Cons.IH [OF rest, of "emit d (LoggerError sid)"] by simp
  next
    case False
    show ?thesis
    proof (cases "run_callback d i sub data")
      case None
      then show ?thesis
        using False p run_callback_without_error [OF False, of d sub data] by simp
    next
      case (Some d1)
      then show ?thesis
        using False p run_callback_without_error [OF False, of d sub data]
          Cons.IH [OF rest, of d1] by simp
    qed
  qed
qed

lemma map_of_remove_id:
  "map_of (remove_id sid reg) t = map_option (AList.delete sid) (map_of reg t)"
  by (induction reg) (auto simp: remove_id_def)

lemma only_unsupported_entry:
  "only_unsupported sid reg \<Longrightarrow> map_of reg t = Some cbs \<Longrightarrow> unsupported_in sid cbs"
  by (auto simp: only_unsupported_def dest: map_of_SomeD)

lemma static_subscriptions_without:
  assumes "only_unsupported sid (subscribers ds)"
  shows "static_subscriptions (without_subscription sid ds) (without_error sid d) item =
     map_option (without_error sid) (static_subscriptions ds d item)"
proof (cases "map_of (subscribers ds) (fst item)")
  case None
  then show ?thesis
    by (simp add: static_subscriptions_def without_subscription_def map_of_remove_id)
next
  case (Some cbs)
  from only_unsupported_entry [OF assms Some] have "unsupported_in sid cbs" .
  from run_callbacks_without_error [OF this] show ?thesis
    using Some by (simp add: static_subscriptions_def without_subscription_def map_of_remove_id)
qed

lemma wildcard_loop_without:
  "only_unsupported sid reg \<Longrightarrow>
   wildcard_loop (remove_id sid reg) (without_error sid d) item =
     map_option (without_error sid) (wildcard_loop reg d item)"
proof (induction reg arbitrary: d)
  case Nil
  then show ?case by (simp add: remove_id_def)
next
  case (Cons e reg)
  obtain p cbs where e: "e = (p, cbs)" by (cases e)
  from Cons.prems e have u: "unsupported_in sid cbs" and rest: "only_unsupported sid reg"
    by (simp_all add: only_unsupported_def)
  have step: "remove_id sid (e # reg) = (p, AList.delete sid cbs) # remove_id sid reg"
    by (simp add: remove_id_def e)
  show ?case
  proof (cases "fnmatch (fst item) p")
    case True
    show ?thesis
    proof (cases "run_callbacks d cbs (snd item)")
      case None
      then show ?thesis
        using True e step run_callbacks_without_error [OF u, of d "snd item"] by simp
    next
      case (Some d1)
      then show ?thesis
        using True e step run_callbacks_without_error [OF u, of d "snd item"]
          Cons.IH [OF rest, of d1] by simp
    qed
  next
    case False
    then show ?thesis
      using e step Cons.IH [OF rest, of d] by simp
  qed
qed

lemma dispatch_without:
  assumes "only_unsupported sid (subscribers ds)"
    and "only_unsupported sid (wildcard_subscribers ds)"
  shows "dispatch (without_subscription sid ds) (without_error sid d) item =
     map_option (without_error sid) (dispatch ds d item)"
proof -
  have w: "\<And>d. wildcard_subscriptions (without_subscription sid ds) (without_error sid d) item =
      map_option (without_error sid) (wildcard_subscriptions ds d item)"
    using wildcard_loop_without [OF assms(2)]
    by (simp add: wildcard_subscriptions_def without_subscription_def)
  show ?thesis
    using static_subscriptions_without [OF assms(1), of d item] w
    by (cases "static_subscriptions ds d item") (simp_all add: dispatch_def)
qed

lemma dispatch_all_without:
  assumes "only_unsupported sid (subscribers ds)"
    and "only_unsupported sid (wildcard_subscribers ds)"
  shows "dispatch_all (without_subscription sid ds) (without_error sid d) items =
     map_option (without_error sid) (dispatch_all ds d items)"
proof (induction items arbitrary: d)
  case Nil
  then show ?case by simp
next
  case (Cons item items)
  show ?case
    using dispatch_without [OF assms, of d item] Cons.IH
    by (cases "dispatch ds d item") simp_all
qed

subsection \<open>The registries stay dicts\<close>

lemma dict_invariant_update:
  "dict_invariant reg \<Longrightarrow> distinct (map fst cbs) \<Longrightarrow> dict_invariant (AList.update t cbs reg)"
proof (induction reg)
  case Nil
  then show ?case by (simp add: dict_invariant_def)
next
  case (Cons e reg)
  obtain q c where e: "e = (q, c)" by (cases e)
  from Cons.prems(1) e have rest: "dict_invariant reg" and c: "distinct (map fst c)"
    and q: "q \<notin> fst ` set reg"
    by (auto simp: dict_invariant_def)
  show ?case
  proof (cases "q = t")
    case True
    then show ?thesis using Cons.prems e by (auto simp: dict_invariant_def)
  next
    case False
    have "dict_invariant (AList.update t cbs reg)"
      using Cons.IH [OF rest Cons.prems(2)] .
    moreover have "q \<notin> fst ` set (AList.update t cbs reg)"
      using q False by (simp add: AList.dom_update)
    ultimately show ?thesis using False e c by (auto simp: dict_invariant_def)
  qed
qed

lemma dict_invariant_entry:
  "dict_invariant reg \<Longrightarrow> map_of reg t = Some cbs \<Longrightarrow> distinct (map fst cbs)"
  by (auto simp: dict_invariant_def dest: map_of_SomeD)

lemma dict_invariant_setdefault_store:
  assumes "dict_invariant reg"
  shows "dict_invariant (setdefault_store reg t i sub)"
proof (cases "map_of reg t")
  case None
  then have "t \<notin> fst ` set reg" by (simp add: map_of_eq_None_iff)
  with assms None show ?thesis
    by (auto simp: setdefault_store_def dict_invariant_def)
next
  case (Some cbs)
  have "distinct (map fst (AList.update i sub cbs))"
    using dict_invariant_entry [OF assms Some] by (simp add: AList.distinct_update)
  from dict_invariant_update [OF assms this] Some show ?thesis
    by (simp add: setdefault_store_def)
qed

lemma dict_invariant_pop_subscription:
  assumes "dict_invariant reg" and "pop_subscription reg t i = Inr reg'"
  shows "dict_invariant reg'"
proof -
  from assms(2) obtain cbs where
    cbs: "map_of reg t = Some cbs" and reg': "reg' = AList.update t (AList.delete i cbs) reg"
    by (auto simp: pop_subscription_def split: option.splits)
  have "distinct (map fst (AList.delete i cbs))"
    using dict_invariant_entry [OF assms(1) cbs] by (simp add: AList.distinct_delete)
  from dict_invariant_update [OF assms(1) this] reg' show ?thesis by simp
qed

text \<open>
  The registries the module creates are empty, and \<^verbatim>\<open>subscribe_data\<close> and
  \<^verbatim>\<open>unsubscribe_data\<close> keep them dicts: the states the claims about dispatch speak of are the
  ones the program reaches.
\<close>

lemma dict_invariant_reachable:
  "dict_invariant (subscribers new_data_stream) \<and>
   dict_invariant (wildcard_subscribers new_data_stream) \<and>
   (dict_invariant (subscribers ds) \<and> dict_invariant (wildcard_subscribers ds) \<longrightarrow>
      dict_invariant (subscribers (snd (subscribe_data ds t cb io i))) \<and>
      dict_invariant (wildcard_subscribers (snd (subscribe_data ds t cb io i))) \<and>
      (\<forall>ds'. unsubscribe_data ds t i = Inr ds' \<longrightarrow>
         dict_invariant (subscribers ds') \<and> dict_invariant (wildcard_subscribers ds')))"
  by (auto simp: new_data_stream_def dict_invariant_def [of "[]"] subscribe_data_def
      unsubscribe_data_def dict_invariant_setdefault_store
      split: sum.splits dest: dict_invariant_pop_subscription)

section \<open>Lemmas about the process watchdog\<close>

lemma handles_created_iff:
  "handles_created w \<longleftrightarrow>
     (\<forall>p \<in> set (units w). \<forall>h. process p = Some h \<longrightarrow> h < next_handle w)"
  by (auto simp: handles_created_def split: option.splits)

lemma stamped_iff:
  "stamped w \<longleftrightarrow>
     (\<forall>p \<in> set (units w). started p \<longrightarrow> (\<exists>s. start_time p = Some s \<and> s \<noteq> 0))"
  by (auto simp: stamped_def split: option.splits)



lemma must_restart_elapsed:
  "start_time p = Some s \<Longrightarrow> s \<noteq> 0 \<Longrightarrow>
   must_restart w p \<longleftrightarrow> started p \<and> \<not> is_alive w p \<and> grace_period p \<le> now w - s"
  by (auto simp: must_restart_def within_grace_def)



lemma start_not_blocks: "fst (start r w) \<noteq> Blocks"
  by (simp add: start_def Let_def split: option.splits launch.splits)












subsection \<open>The invariants of the watchdog state\<close>

text \<open>
  \<^verbatim>\<open>start\<close> and \<^verbatim>\<open>restart\<close>, however they end, keep the registry a list of references into
  the store, the handles in the store created ones, and the timestamps of the units whose
  flag is set clock readings: the states the claims about the watchdog speak of are the
  ones the program reaches.
\<close>

lemma start_invariants:
  assumes "r < length (units w)" and "registry_valid w" and "handles_created w"
    and "stamped w" and "now w \<noteq> 0"
  shows "registry_valid (snd (start r w)) \<and> handles_created (snd (start r w)) \<and>
     stamped (snd (start r w))"
proof -
  let ?p = "(units w ! r)\<lparr>process := Some (next_handle w), start_time := Some (now w),
     started := True\<rparr>"
  have same: "snd (start r w) = w \<or>
    (units (snd (start r w)) = (units w)[r := ?p] \<and>
     next_handle (snd (start r w)) = Suc (next_handle w) \<and>
     set (registered_items (snd (start r w))) \<subseteq> insert r (set (registered_items w)))"
    by (auto simp: start_def register_item_def Let_def split: option.splits launch.splits)
  then show ?thesis
  proof
    assume "snd (start r w) = w"
    then show ?thesis using assms by simp
  next
    assume a: "units (snd (start r w)) = (units w)[r := ?p] \<and>
     next_handle (snd (start r w)) = Suc (next_handle w) \<and>
     set (registered_items (snd (start r w))) \<subseteq> insert r (set (registered_items w))"
    have mem: "\<And>p. p \<in> set (units (snd (start r w))) \<Longrightarrow> p \<in> set (units w) \<or> p = ?p"
      using a by (auto dest!: set_update_subset_insert [THEN subsetD])
    have rv: "registry_valid (snd (start r w))"
      using assms(1,2) a by (auto simp: registry_valid_def)
    have hc: "handles_created (snd (start r w))"
      unfolding handles_created_iff
    proof (intro ballI allI impI)
      fix p h
      assume "p \<in> set (units (snd (start r w)))" and h: "process p = Some h"
      from mem [OF this(1)] show "h < next_handle (snd (start r w))"
        using h assms(3) a by (fastforce simp: handles_created_iff)
    qed
    have st: "stamped (snd (start r w))"
      unfolding stamped_iff
    proof (intro ballI impI)
      fix p
      assume "p \<in> set (units (snd (start r w)))" and s: "started p"
      from mem [OF this(1)] show "\<exists>s. start_time p = Some s \<and> s \<noteq> 0"
        using s assms(4,5) by (auto simp: stamped_iff)
    qed
    from rv hc st show ?thesis by simp
  qed
qed

lemma restart_invariants:
  assumes "r < length (units w)" and "registry_valid w" and "handles_created w"
    and "stamped w" and "now w \<noteq> 0"
  shows "registry_valid (snd (restart r t w)) \<and> handles_created (snd (restart r t w)) \<and>
     stamped (snd (restart r t w))"
proof -
  let ?u = "(units w)[r := (units w ! r)\<lparr>started := False\<rparr>]"
  have inv: "registry_valid w1 \<and> handles_created w1 \<and> stamped w1 \<and> r < length (units w1)"
    if "units w1 = ?u" "registered_items w1 = registered_items w"
      "next_handle w1 = next_handle w" for w1 :: watchdog_state
  proof -
    have mem: "\<And>p. p \<in> set (units w1) \<Longrightarrow>
        p \<in> set (units w) \<or> p = (units w ! r)\<lparr>started := False\<rparr>"
      using that(1) by (auto dest!: set_update_subset_insert [THEN subsetD])
    have ur: "units w ! r \<in> set (units w)" using assms(1) by simp
    have "registry_valid w1"
      using assms(2) that by (simp add: registry_valid_def)
    moreover have "handles_created w1"
      unfolding handles_created_iff
    proof (intro ballI allI impI)
      fix p h
      assume "p \<in> set (units w1)" and h: "process p = Some h"
      from mem [OF this(1)] show "h < next_handle w1"
        using h assms(3) ur that(3) by (fastforce simp: handles_created_iff)
    qed
    moreover have "stamped w1"
      unfolding stamped_iff
    proof (intro ballI impI)
      fix p
      assume "p \<in> set (units w1)" and s: "started p"
      from mem [OF this(1)] show "\<exists>s. start_time p = Some s \<and> s \<noteq> 0"
        using s assms(4) by (auto simp: stamped_iff)
    qed
    moreover have "r < length (units w1)" using that(1) assms(1) by simp
    ultimately show ?thesis by simp
  qed
  have st: "registry_valid (snd (start r w1)) \<and> handles_created (snd (start r w1)) \<and>
      stamped (snd (start r w1))"
    if "units w1 = ?u" "registered_items w1 = registered_items w"
      "next_handle w1 = next_handle w" "now w1 = now w" for w1 :: watchdog_state
    using start_invariants [of r w1] inv [OF that(1-3)] that(4) assms(5) by simp
  show ?thesis
  proof (cases "process (units w ! r)")
    case None
    then show ?thesis using st by (simp add: restart_def Let_def)
  next
    case (Some h)
    show ?thesis
    proof (cases "children w h")
      case NotStarted
      then show ?thesis
        using Some inv [of "w\<lparr>units := ?u, events := events w @ [Restart r t, ProcessTerminate h]\<rparr>"]
        by (simp add: restart_def Let_def)
    next
      case Exited
      then show ?thesis using Some st by (simp add: restart_def Let_def)
    next
      case (Running b)
      show ?thesis
      proof (cases "t")
        case (Some d)
        then show ?thesis
          using \<open>process (units w ! r) = Some h\<close> Running st
          by (simp add: restart_def Let_def)
      next
        case None
        show ?thesis
        proof (cases b)
          case True
          then show ?thesis
            using \<open>process (units w ! r) = Some h\<close> Running st
            by (simp add: restart_def Let_def)
        next
          case False
          then show ?thesis
            using \<open>process (units w ! r) = Some h\<close> Running None
              inv [of "w\<lparr>units := ?u,
                events := events w @ [Restart r t, ProcessTerminate h, ProcessJoin h t]\<rparr>"]
            by (simp add: restart_def Let_def)
        qed
      qed
    qed
  qed
qed

subsection \<open>The calls of a restart\<close>

text \<open>A list that is the beginning of another one, read from the front.\<close>

lemma begins_Nil: "\<exists>n. [] = take n ys"
  by (rule exI [of _ 0]) simp

lemma begins_Cons: "(\<exists>n. x # xs = take n (x # ys)) \<longleftrightarrow> (\<exists>n. xs = take n ys)"
proof
  assume "\<exists>n. x # xs = take n (x # ys)"
  then obtain n where n: "x # xs = take n (x # ys)" by blast
  then show "\<exists>n. xs = take n ys" by (cases n) auto
next
  assume "\<exists>n. xs = take n ys"
  then obtain n where "xs = take n ys" by blast
  then have "x # xs = take (Suc n) (x # ys)" by simp
  then show "\<exists>n. x # xs = take n (x # ys)" by blast
qed

lemma begins_self: "\<exists>n. xs = take n xs"
  by (rule exI [of _ "length xs"]) simp

text \<open>
  \<^verbatim>\<open>start\<close> on a state \<open>w1\<close> that has the units, the handles and the operating system of \<open>w\<close>,
  but for the flag of the unit \<open>r\<close>: what it returns, and what it leaves.
\<close>

lemma start_outcome:
  assumes "r < length (units w1)"
  shows "fst (start r w1) = Returns \<longleftrightarrow>
      process_init_error (args (units w1 ! r)) (kwargs (units w1 ! r)) = None \<and>
      (\<exists>b. os_start w1 (next_handle w1) = Launched b)"
    and "fst (start r w1) \<noteq> Blocks"
    and "\<exists>n. events (snd (start r w1)) =
      events w1 @ take n ([ProcessCreate (next_handle w1), ProcessStart (next_handle w1)] @
        (if register (units w1 ! r) then [Register r] else []))"
    and "fst (start r w1) = Returns \<Longrightarrow>
      events (snd (start r w1)) =
        events w1 @ [ProcessCreate (next_handle w1), ProcessStart (next_handle w1)] @
        (if register (units w1 ! r) then [Register r] else [])"
    and "name (units (snd (start r w1)) ! r) = name (units w1 ! r) \<and>
      args (units (snd (start r w1)) ! r) = args (units w1 ! r) \<and>
      kwargs (units (snd (start r w1)) ! r) = kwargs (units w1 ! r) \<and>
      grace_period (units (snd (start r w1)) ! r) = grace_period (units w1 ! r) \<and>
      register (units (snd (start r w1)) ! r) = register (units w1 ! r)"
    and "fst (start r w1) = Returns \<Longrightarrow>
      process (units (snd (start r w1)) ! r) = Some (next_handle w1) \<and>
      start_time (units (snd (start r w1)) ! r) = Some (now w1) \<and>
      started (units (snd (start r w1)) ! r) \<and>
      is_alive (snd (start r w1)) (units (snd (start r w1)) ! r)"
    and "k \<noteq> r \<Longrightarrow> units (snd (start r w1)) ! k = units w1 ! k"
    and "length (units (snd (start r w1))) = length (units w1)"
proof -
  show "fst (start r w1) = Returns \<longleftrightarrow>
      process_init_error (args (units w1 ! r)) (kwargs (units w1 ! r)) = None \<and>
      (\<exists>b. os_start w1 (next_handle w1) = Launched b)"
    by (simp add: start_def Let_def split: option.splits launch.splits)
  show "fst (start r w1) \<noteq> Blocks" by (rule start_not_blocks)
  show "\<exists>n. events (snd (start r w1)) =
      events w1 @ take n ([ProcessCreate (next_handle w1), ProcessStart (next_handle w1)] @
        (if register (units w1 ! r) then [Register r] else []))"
    by (simp add: start_def register_item_def Let_def begins_Nil begins_Cons
        split: option.splits launch.splits)
  show "fst (start r w1) = Returns \<Longrightarrow>
      events (snd (start r w1)) =
        events w1 @ [ProcessCreate (next_handle w1), ProcessStart (next_handle w1)] @
        (if register (units w1 ! r) then [Register r] else [])"
    by (simp add: start_def register_item_def Let_def split: option.splits launch.splits)
  show "name (units (snd (start r w1)) ! r) = name (units w1 ! r) \<and>
      args (units (snd (start r w1)) ! r) = args (units w1 ! r) \<and>
      kwargs (units (snd (start r w1)) ! r) = kwargs (units w1 ! r) \<and>
      grace_period (units (snd (start r w1)) ! r) = grace_period (units w1 ! r) \<and>
      register (units (snd (start r w1)) ! r) = register (units w1 ! r)"
    using assms
    by (simp add: start_def register_item_def Let_def split: option.splits launch.splits)
  show "fst (start r w1) = Returns \<Longrightarrow>
      process (units (snd (start r w1)) ! r) = Some (next_handle w1) \<and>
      start_time (units (snd (start r w1)) ! r) = Some (now w1) \<and>
      started (units (snd (start r w1)) ! r) \<and>
      is_alive (snd (start r w1)) (units (snd (start r w1)) ! r)"
    using assms
    by (simp add: start_def register_item_def is_alive_def Let_def
        split: option.splits launch.splits)
  show "k \<noteq> r \<Longrightarrow> units (snd (start r w1)) ! k = units w1 ! k"
    by (simp add: start_def register_item_def Let_def split: option.splits launch.splits)
  show "length (units (snd (start r w1))) = length (units w1)"
    by (simp add: start_def register_item_def Let_def split: option.splits launch.splits)
qed

text \<open>Neither method changes what the operating system will do.\<close>

lemma start_os_start: "os_start (snd (start r w)) = os_start w"
  by (simp add: start_def register_item_def Let_def split: option.splits launch.splits)

lemma restart_os_start: "os_start (snd (restart r t w)) = os_start w"
  by (simp add: restart_def start_os_start Let_def split: option.splits child_status.splits)

lemma later_os_start: "os_start (later t hs w) = os_start w"
  by (simp add: later_def)

text \<open>The definitions a restart is made of.\<close>

lemmas restart_unfold = restart_def start_def register_item_def restart_calls_def Let_def
  is_alive_def begins_Nil begins_Cons

section \<open>Claims about the registries and the mailbox\<close>

text \<open>
  C9: \<^verbatim>\<open>subscribe_data\<close> returns the subscription id and stores the subscription in exactly
  one registry, chosen when subscribing: the wildcard map if and only if the pattern contains
  \<^verbatim>\<open>*\<close>, the exact-topic map otherwise.  The registry not chosen is neither read nor
  changed, every other entry of the chosen one is kept, and the mailbox is untouched.  For an id not in use before, the id is afterwards found in the
  wildcard map exactly when the pattern has a \<^verbatim>\<open>*\<close>, and in the exact map exactly when
  it has none.
\<close>

theorem subscribe_data_registry:
  assumes "subscribe_data ds data_topic cb io unique_id = (rid, ds')"
  shows "rid = unique_id \<and>
    (if has_wildcard data_topic
     then subscribers ds' = subscribers ds \<and>
          lookup_registry (wildcard_subscribers ds') data_topic unique_id =
            Some \<lparr>callback = cb, ioloop = io\<rparr> \<and>
          (\<forall>t i. (t, i) \<noteq> (data_topic, unique_id) \<longrightarrow>
             lookup_registry (wildcard_subscribers ds') t i =
             lookup_registry (wildcard_subscribers ds) t i)
     else wildcard_subscribers ds' = wildcard_subscribers ds \<and>
          lookup_registry (subscribers ds') data_topic unique_id =
            Some \<lparr>callback = cb, ioloop = io\<rparr> \<and>
          (\<forall>t i. (t, i) \<noteq> (data_topic, unique_id) \<longrightarrow>
             lookup_registry (subscribers ds') t i = lookup_registry (subscribers ds) t i)) \<and>
    data_queue ds' = data_queue ds \<and>
    (unique_id \<notin> registry_ids (subscribers ds) \<union> registry_ids (wildcard_subscribers ds) \<longrightarrow>
       (unique_id \<in> registry_ids (wildcard_subscribers ds') \<longleftrightarrow> has_wildcard data_topic) \<and>
       (unique_id \<in> registry_ids (subscribers ds') \<longleftrightarrow> \<not> has_wildcard data_topic))"
proof (cases "has_wildcard data_topic")
  case True
  with assms have "rid = unique_id \<and> ds' = ds\<lparr>wildcard_subscribers :=
        setdefault_store (wildcard_subscribers ds) data_topic unique_id
          \<lparr>callback = cb, ioloop = io\<rparr>\<rparr>"
    by (auto simp: subscribe_data_def)
  then have rid: "rid = unique_id"
    and ds': "ds' = ds\<lparr>wildcard_subscribers :=
        setdefault_store (wildcard_subscribers ds) data_topic unique_id
          \<lparr>callback = cb, ioloop = io\<rparr>\<rparr>"
    by simp_all
  show ?thesis
    using True registry_ids_setdefault_store
      [of unique_id "wildcard_subscribers ds" data_topic "\<lparr>callback = cb, ioloop = io\<rparr>"]
    by (auto simp: rid ds' lookup_setdefault_store)
next
  case False
  with assms have "rid = unique_id \<and> ds' = ds\<lparr>subscribers :=
        setdefault_store (subscribers ds) data_topic unique_id
          \<lparr>callback = cb, ioloop = io\<rparr>\<rparr>"
    by (auto simp: subscribe_data_def)
  then have rid: "rid = unique_id"
    and ds': "ds' = ds\<lparr>subscribers :=
        setdefault_store (subscribers ds) data_topic unique_id
          \<lparr>callback = cb, ioloop = io\<rparr>\<rparr>"
    by simp_all
  show ?thesis
    using False registry_ids_setdefault_store
      [of unique_id "subscribers ds" data_topic "\<lparr>callback = cb, ioloop = io\<rparr>"]
    by (auto simp: rid ds' lookup_setdefault_store)
qed

theorem subscribe_data_registry_witness:
  "fst (subscribe_data new_data_stream ''camera/*/event'' (Callable 1) None 7) = 7 \<and>
   subscribers (snd (subscribe_data new_data_stream ''camera/*/event'' (Callable 1) None 7))
     = [] \<and>
   lookup_registry
     (wildcard_subscribers
        (snd (subscribe_data new_data_stream ''camera/*/event'' (Callable 1) None 7)))
     ''camera/*/event'' 7 = Some \<lparr>callback = Callable 1, ioloop = None\<rparr> \<and>
   7 \<in> registry_ids
     (wildcard_subscribers
        (snd (subscribe_data new_data_stream ''camera/*/event'' (Callable 1) None 7)))"
  using subscribe_data_registry
    [of new_data_stream "''camera/*/event''" "Callable 1" None 7 7
        "snd (subscribe_data new_data_stream ''camera/*/event'' (Callable 1) None 7)"]
  by (simp add: subscribe_data_def has_wildcard_def new_data_stream_def registry_ids_def)

text \<open>
  C5, as the claim states it, fails: unsubscribing an id that was never issued, under a topic
  with no entry, raises \<^verbatim>\<open>KeyError\<close>; and after a subscribe and one successful unsubscribe,
  the second unsubscribe raises \<^verbatim>\<open>KeyError\<close> as well.
\<close>

theorem unsubscribe_data_absent_raises:
  "unsubscribe_data new_data_stream ''camera/front/frame'' 7 = Inl KeyError \<and>
   (case unsubscribe_data
           (snd (subscribe_data new_data_stream ''camera/front/frame'' (Callable 1) None 7))
           ''camera/front/frame'' 7 of
      Inl e \<Rightarrow> False
    | Inr ds \<Rightarrow> unsubscribe_data ds ''camera/front/frame'' 7 = Inl KeyError)"
  by (simp add: unsubscribe_data_def subscribe_data_def pop_subscription_def
      setdefault_store_def has_wildcard_def new_data_stream_def)

text \<open>
  C5, amended: \<^verbatim>\<open>unsubscribe_data\<close> removes the subscription when it is stored under that
  topic in the registry the topic's \<^verbatim>\<open>*\<close> selects, leaving every other subscription and
  the mailbox as they were; when the topic has no entry there or the id is
  not under it, the call raises \<^verbatim>\<open>KeyError\<close> and changes nothing.  A second call after a
  successful one therefore raises \<^verbatim>\<open>KeyError\<close>.
\<close>

theorem unsubscribe_data_removes_or_raises:
  "(case unsubscribe_data ds data_topic unique_id of
      Inl e \<Rightarrow> e = KeyError \<and> lookup_subscription ds data_topic unique_id = None
    | Inr ds' \<Rightarrow>
        lookup_subscription ds data_topic unique_id \<noteq> None \<and>
        lookup_subscription ds' data_topic unique_id = None \<and>
        (\<forall>t i. (t, i) \<noteq> (data_topic, unique_id) \<longrightarrow>
           lookup_subscription ds' t i = lookup_subscription ds t i) \<and>
        data_queue ds' = data_queue ds \<and>
        unsubscribe_data ds' data_topic unique_id = Inl KeyError)"
proof (cases "has_wildcard data_topic")
  case True
  show ?thesis
  proof (cases "pop_subscription (wildcard_subscribers ds) data_topic unique_id")
    case (Inl e)
    have "e = KeyError \<and> lookup_registry (wildcard_subscribers ds) data_topic unique_id = None"
      using Inl by (simp add: pop_subscription_Inl)
    then show ?thesis
      using True Inl by (simp add: unsubscribe_data_def lookup_subscription_def)
  next
    case (Inr reg)
    have gone: "lookup_registry reg data_topic unique_id = None"
      using lookup_pop_subscription [OF Inr] by simp
    have again: "pop_subscription reg data_topic unique_id = Inl KeyError"
      using gone by (simp add: pop_subscription_Inl)
    show ?thesis
      using True Inr gone again pop_subscription_Inr [OF Inr] lookup_pop_subscription [OF Inr]
      by (auto simp: unsubscribe_data_def lookup_subscription_def)
  qed
next
  case False
  show ?thesis
  proof (cases "pop_subscription (subscribers ds) data_topic unique_id")
    case (Inl e)
    have "e = KeyError \<and> lookup_registry (subscribers ds) data_topic unique_id = None"
      using Inl by (simp add: pop_subscription_Inl)
    then show ?thesis
      using False Inl by (simp add: unsubscribe_data_def lookup_subscription_def)
  next
    case (Inr reg)
    have gone: "lookup_registry reg data_topic unique_id = None"
      using lookup_pop_subscription [OF Inr] by simp
    have again: "pop_subscription reg data_topic unique_id = Inl KeyError"
      using gone by (simp add: pop_subscription_Inl)
    show ?thesis
      using False Inr gone again pop_subscription_Inr [OF Inr] lookup_pop_subscription [OF Inr]
      by (auto simp: unsubscribe_data_def lookup_subscription_def)
  qed
qed

theorem unsubscribe_data_removes_or_raises_witness:
  "lookup_subscription
     (snd (subscribe_data new_data_stream ''camera/*/event'' (PyQueue 2) None 7))
     ''camera/*/event'' 7 = Some \<lparr>callback = PyQueue 2, ioloop = None\<rparr> \<and>
   unsubscribe_data
     (snd (subscribe_data new_data_stream ''camera/*/event'' (PyQueue 2) None 7))
     ''camera/*/event'' 7 =
     Inr \<lparr>subscribers = [], wildcard_subscribers = [(''camera/*/event'', [])],
          data_queue = []\<rparr> \<and>
   unsubscribe_data
     \<lparr>subscribers = [], wildcard_subscribers = [(''camera/*/event'', [])],
      data_queue = []\<rparr> ''camera/*/event'' 7 = Inl KeyError"
  using unsubscribe_data_removes_or_raises
    [of "snd (subscribe_data new_data_stream ''camera/*/event'' (PyQueue 2) None 7)"
        "''camera/*/event''" 7]
  by (simp add: unsubscribe_data_def subscribe_data_def pop_subscription_def
      setdefault_store_def has_wildcard_def new_data_stream_def lookup_subscription_def
      lookup_registry_def)

text \<open>
  C3: a publish always returns (the model's \<^const>\<open>publish_data\<close> is a total function of
  the state: it never waits), and after \<open>N + k\<close> publishes into an empty mailbox of capacity
  \<open>N\<close> with no dequeue in between, the mailbox holds exactly the \<open>N\<close> newest messages in
  the order they were published, the oldest \<open>k\<close> having been dropped.  This holds for every
  capacity \<open>N > 0\<close> of the drop-oldest queue, and for the broker's own mailbox, whose
  capacity is 1000.
\<close>

theorem publish_data_keeps_newest:
  assumes "0 < N" and "length msgs = N + k"
  shows "foldl (pop_if_full N) [] msgs = drop k msgs \<and>
    length (foldl (pop_if_full N) [] msgs) = N \<and>
    (N = data_queue_maxsize \<longrightarrow> data_queue ds = [] \<longrightarrow>
       data_queue (publish_all ds msgs) = drop k msgs \<and>
       length (data_queue (publish_all ds msgs)) = data_queue_maxsize)"
proof -
  have a: "foldl (pop_if_full N) [] msgs = drop k msgs"
    using foldl_pop_if_full [of N "[]" msgs] assms by simp
  have b: "length (drop k msgs) = N"
    using assms by simp
  have c: "length (foldl (pop_if_full N) [] msgs) = N"
    using a b by simp
  show ?thesis
    using a c by (auto simp: data_queue_publish_all)
qed

theorem publish_data_keeps_newest_witness:
  "data_queue
     (publish_all new_data_stream (map (\<lambda>i. (''camera/front/frame'', PInt (int i))) [0..<1003]))
     = drop 3 (map (\<lambda>i. (''camera/front/frame'', PInt (int i))) [0..<1003]) \<and>
   length (data_queue
     (publish_all new_data_stream (map (\<lambda>i. (''camera/front/frame'', PInt (int i))) [0..<1003])))
     = 1000"
  using publish_data_keeps_newest
    [of 1000 "map (\<lambda>i. (''camera/front/frame'', PInt (int i))) [0..<1003]" 3 new_data_stream]
  by (simp add: data_queue_maxsize_def new_data_stream_def)

section \<open>Claims about dispatch\<close>

text \<open>
  C1, as the claim states it, fails: the subscriber on \<^verbatim>\<open>camera/*/event\<close> (three segments)
  is delivered a message published to \<^verbatim>\<open>camera/front/sub/event\<close> (four segments), which the
  pattern does not match segment-for-segment.
\<close>

theorem wildcard_star_spans_segments:
  "dispatch scenario_stream scenario_dispatcher (''camera/front/sub/event'', PObject 9) =
     Some \<lparr>max_threads = 10, observations = [(2, Started), (2, Started), (2, Started)],
           trace = [AddCallback 3 5 13 (Some (PObject 9))]\<rparr> \<and>
   length (spec_segments ''camera/*/event'') = 3 \<and>
   length (spec_segments ''camera/front/sub/event'') = 4 \<and>
   \<not> spec_segment_match ''camera/*/event'' ''camera/front/sub/event''"
  by code_simp

text \<open>
  C1, amended: for a subscription whose pattern is a text, a \<^verbatim>\<open>*\<close>, and a text, neither text
  containing \<^verbatim>\<open>*\<close>, \<^verbatim>\<open>?\<close> or \<^verbatim>\<open>[\<close>, dispatch delivers a published message to that
  subscriber, once, exactly when the topic begins with the first text, ends with the second,
  and is at least as long as both together: the \<^verbatim>\<open>*\<close> stands for any run of characters,
  \<^verbatim>\<open>/\<close> included.  So every topic that matches the pattern segment-for-segment is
  delivered, and a topic with more segments than the pattern can be delivered as well; the
  subscriber on \<^verbatim>\<open>camera/*/event\<close> receives nothing for \<^verbatim>\<open>camera/front/frame\<close>.  (The id is
  taken to be stored under that pattern only; the dispatch completes under the conditions of
  C2.)
\<close>

theorem wildcard_subscriber_delivery:
  assumes "plain pre" and "plain suf"
    and "dict_invariant (wildcard_subscribers ds)"
    and "lookup_registry (wildcard_subscribers ds) (pre @ ''*'' @ suf) sid = Some sub"
    and "sid \<notin> registry_ids (subscribers ds)"
    and "sid \<notin> registry_ids (AList.delete (pre @ ''*'' @ suf) (wildcard_subscribers ds))"
    and "clean (observations d)"
  shows "(\<forall>d'. dispatch ds d (topic, data) = Some d' \<longrightarrow>
            (\<exists>evs. trace d' = trace d @ evs \<and>
               events_of sid evs =
                 (if \<exists>mid. topic = pre @ mid @ suf then [delivery sid sub data] else []))) \<and>
    (calm (max_threads d) (observations d) \<and>
     registry_size (subscribers ds) + registry_size (wildcard_subscribers ds)
       \<le> length (observations d) \<longrightarrow>
       (\<exists>d'. dispatch ds d (topic, data) = Some d')) \<and>
    (spec_segment_match (pre @ ''*'' @ suf) topic \<longrightarrow> (\<exists>mid. topic = pre @ mid @ suf)) \<and>
    (fnmatch topic (pre @ ''*'' @ suf) \<longleftrightarrow> (\<exists>mid. topic = pre @ mid @ suf))"
proof -
  let ?pat = "pre @ ''*'' @ suf"
  have fm: "fnmatch topic ?pat \<longleftrightarrow> (\<exists>mid. topic = pre @ mid @ suf)"
    using fnmatch_one_star [OF assms(1,2), of topic] by simp
  from assms(4) obtain cbs where
    cbs: "map_of (wildcard_subscribers ds) ?pat = Some cbs" "map_of cbs sid = Some sub"
    by (auto simp: lookup_registry_def split: option.splits)
  from cbs(1) have "(?pat, cbs) \<in> set (wildcard_subscribers ds)" by (rule map_of_SomeD)
  with assms(3) have dist: "distinct (map fst cbs)"
    and dreg: "distinct (map fst (wildcard_subscribers ds))"
    by (auto simp: dict_invariant_def)
  have one: "deliveries sid cbs data = [delivery sid sub data]"
    using dist cbs(2) by (rule deliveries_unique)
  have wild: "matching_deliveries sid (wildcard_subscribers ds) (topic, data) =
      (if \<exists>mid. topic = pre @ mid @ suf then [delivery sid sub data] else [])"
    using matching_deliveries_unique [OF dreg cbs(1) assms(6), of "(topic, data)"] one fm
    by simp
  have stat: "deliveries sid
      (case map_of (subscribers ds) topic of None \<Rightarrow> [] | Some cbs \<Rightarrow> cbs) data = []"
  proof (cases "map_of (subscribers ds) topic")
    case None
    then show ?thesis by (simp add: deliveries_def)
  next
    case (Some c)
    then have "(topic, c) \<in> set (subscribers ds)" by (rule map_of_SomeD)
    then have "fst ` set c \<subseteq> registry_ids (subscribers ds)"
      by (auto simp: registry_ids_def)
    with assms(5) have "sid \<notin> fst ` set c" by blast
    then show ?thesis using Some by (simp add: deliveries_absent)
  qed
  have a: "\<forall>d'. dispatch ds d (topic, data) = Some d' \<longrightarrow>
            (\<exists>evs. trace d' = trace d @ evs \<and>
               events_of sid evs =
                 (if \<exists>mid. topic = pre @ mid @ suf then [delivery sid sub data] else []))"
  proof (intro allI impI)
    fix d'
    assume "dispatch ds d (topic, data) = Some d'"
    from dispatch_trace [OF this assms(7)] obtain evs where
      "trace d' = trace d @ evs"
      "\<forall>i. events_of i evs =
         deliveries i (case map_of (subscribers ds) (fst (topic, data)) of
                         None \<Rightarrow> [] | Some cbs \<Rightarrow> cbs) (snd (topic, data)) @
         matching_deliveries i (wildcard_subscribers ds) (topic, data)"
      by blast
    then have "trace d' = trace d @ evs \<and> events_of sid evs =
        (if \<exists>mid. topic = pre @ mid @ suf then [delivery sid sub data] else [])"
      using stat wild by simp
    then show "\<exists>evs. trace d' = trace d @ evs \<and> events_of sid evs =
        (if \<exists>mid. topic = pre @ mid @ suf then [delivery sid sub data] else [])"
      by blast
  qed
  have b: "calm (max_threads d) (observations d) \<and>
     registry_size (subscribers ds) + registry_size (wildcard_subscribers ds)
       \<le> length (observations d) \<longrightarrow>
       (\<exists>d'. dispatch ds d (topic, data) = Some d')"
    using dispatch_calm by blast
  have np: "CHR ''?'' \<notin> set ?pat" "CHR ''['' \<notin> set ?pat"
    using assms(1,2) by (auto simp: plain_def)
  have c: "spec_segment_match ?pat topic \<longrightarrow> (\<exists>mid. topic = pre @ mid @ suf)"
    using spec_segment_match_fnmatch [OF np] fm by blast
  from a b c fm show ?thesis by blast
qed

theorem wildcard_subscriber_delivery_witness:
  "dispatch scenario_stream scenario_dispatcher (''camera/front/event'', PObject 9) =
     Some \<lparr>max_threads = 10, observations = [(2, Started), (2, Started), (2, Started)],
           trace = [AddCallback 3 5 13 (Some (PObject 9))]\<rparr> \<and>
   spec_segment_match ''camera/*/event'' ''camera/front/event'' \<and>
   events_of 3 [AddCallback 3 5 13 (Some (PObject 9))] = [AddCallback 3 5 13 (Some (PObject 9))] \<and>
   dispatch scenario_stream scenario_dispatcher (''camera/front/frame'', PObject 9) =
     Some \<lparr>max_threads = 10, observations = [(2, Started), (2, Started)],
           trace = [QueuePut 1 11 (PObject 9), ThreadStart 2 12 (Some (PObject 9))]\<rparr> \<and>
   events_of 3 [QueuePut 1 11 (PObject 9), ThreadStart 2 12 (Some (PObject 9))] = [] \<and>
   \<not> fnmatch ''camera/front/frame'' ''camera/*/event''"
proof -
  have p: "plain ''camera/''" "plain ''/event''" by code_simp+
  have h3: "dict_invariant (wildcard_subscribers scenario_stream)" by code_simp
  have h4: "lookup_registry (wildcard_subscribers scenario_stream)
      (''camera/'' @ ''*'' @ ''/event'') 3 = Some \<lparr>callback = Callable 13, ioloop = Some 5\<rparr>"
    by code_simp
  have h5: "3 \<notin> registry_ids (subscribers scenario_stream)" by code_simp
  have h6: "3 \<notin> registry_ids
      (AList.delete (''camera/'' @ ''*'' @ ''/event'') (wildcard_subscribers scenario_stream))"
    by code_simp
  have h7: "clean (observations scenario_dispatcher)" by code_simp
  have t0: "trace scenario_dispatcher = []" by (simp add: scenario_dispatcher_def)
  have del: "delivery 3 \<lparr>callback = Callable 13, ioloop = Some 5\<rparr> (PObject 9) =
      AddCallback 3 5 13 (Some (PObject 9))" by code_simp
  have ev1: "dispatch scenario_stream scenario_dispatcher (''camera/front/event'', PObject 9) =
     Some \<lparr>max_threads = 10, observations = [(2, Started), (2, Started), (2, Started)],
           trace = [AddCallback 3 5 13 (Some (PObject 9))]\<rparr>"
    by code_simp
  have ev2: "dispatch scenario_stream scenario_dispatcher (''camera/front/frame'', PObject 9) =
     Some \<lparr>max_threads = 10, observations = [(2, Started), (2, Started)],
           trace = [QueuePut 1 11 (PObject 9), ThreadStart 2 12 (Some (PObject 9))]\<rparr>"
    by code_simp
  have sm: "spec_segment_match ''camera/*/event'' ''camera/front/event''" by code_simp
  have nm: "\<not> fnmatch ''camera/front/frame'' ''camera/*/event''" by code_simp
  note thm1 = wildcard_subscriber_delivery
    [OF p h3 h4 h5 h6 h7, of "''camera/front/event''" "PObject 9"]
  note thm2 = wildcard_subscriber_delivery
    [OF p h3 h4 h5 h6 h7, of "''camera/front/frame''" "PObject 9"]
  from thm1 sm have yes: "\<exists>mid. ''camera/front/event'' = ''camera/'' @ mid @ ''/event''"
    by simp
  from thm2 nm have no: "\<not> (\<exists>mid. ''camera/front/frame'' = ''camera/'' @ mid @ ''/event'')"
    by simp
  from thm1 ev1 obtain evs1 where
    "trace \<lparr>max_threads = 10, observations = [(2, Started), (2, Started), (2, Started)],
        trace = [AddCallback 3 5 13 (Some (PObject 9))]\<rparr> = trace scenario_dispatcher @ evs1"
    "events_of 3 evs1 =
       (if \<exists>mid. ''camera/front/event'' = ''camera/'' @ mid @ ''/event''
        then [delivery 3 \<lparr>callback = Callable 13, ioloop = Some 5\<rparr> (PObject 9)] else [])"
    by blast
  with yes t0 del have r1: "events_of 3 [AddCallback 3 5 13 (Some (PObject 9))] =
      [AddCallback 3 5 13 (Some (PObject 9))]"
    by simp
  from thm2 ev2 obtain evs2 where
    "trace \<lparr>max_threads = 10, observations = [(2, Started), (2, Started)],
        trace = [QueuePut 1 11 (PObject 9), ThreadStart 2 12 (Some (PObject 9))]\<rparr> =
       trace scenario_dispatcher @ evs2"
    "events_of 3 evs2 =
       (if \<exists>mid. ''camera/front/frame'' = ''camera/'' @ mid @ ''/event''
        then [delivery 3 \<lparr>callback = Callable 13, ioloop = Some 5\<rparr> (PObject 9)] else [])"
    by blast
  with no t0 have r2:
    "events_of 3 [QueuePut 1 11 (PObject 9), ThreadStart 2 12 (Some (PObject 9))] = []"
    by simp
  from ev1 sm r1 ev2 r2 nm show ?thesis by simp
qed

text \<open>
  C2, as the claim states it, fails for a falsy payload: with a callable subscribed to
  \<^verbatim>\<open>camera/front/frame\<close> and the payload \<^verbatim>\<open>0\<close> published there, the one delivery starts the
  thread of the callable with no argument, so the payload does not reach the subscriber.
\<close>

theorem exact_subscriber_falsy_payload_not_passed:
  "dispatch
     (snd (subscribe_data new_data_stream ''camera/front/frame'' (Callable 12) None 1))
     scenario_dispatcher (''camera/front/frame'', PInt 0) =
   Some \<lparr>max_threads = 10, observations = [(2, Started), (2, Started)],
         trace = [ThreadStart 1 12 None]\<rparr>"
  by code_simp

text \<open>
  C2, amended: for a subscription stored under an exact topic (its id in no wildcard entry),
  dispatching a message published to that topic makes exactly one delivery for it.  For a
  queue target the delivery puts the identical payload; for a callable it runs the callable
  (in a new thread, or on the subscription's ioloop) with the payload as argument when the
  payload is truthy and with no argument when it is falsy; for a target of an unsupported
  kind the one event is the logged error.  This is what a completed dispatch has done,
  provided \<^verbatim>\<open>thread.start()\<close> fails in no other way than "can't start new thread"; and the
  dispatch does complete when every pass of the thread-start loop finds the active count
  within the ceiling and starts its thread.
\<close>

theorem exact_subscriber_delivery:
  assumes "dict_invariant (subscribers ds)"
    and "lookup_registry (subscribers ds) topic sid = Some sub"
    and "sid \<notin> registry_ids (wildcard_subscribers ds)"
    and "clean (observations d)"
  shows "(\<forall>d'. dispatch ds d (topic, data) = Some d' \<longrightarrow>
            (\<exists>evs. trace d' = trace d @ evs \<and> events_of sid evs = [delivery sid sub data])) \<and>
    (calm (max_threads d) (observations d) \<and>
     registry_size (subscribers ds) + registry_size (wildcard_subscribers ds)
       \<le> length (observations d) \<longrightarrow>
       (\<exists>d'. dispatch ds d (topic, data) = Some d')) \<and>
    delivery sid sub data =
      (case callback sub of
         Callable f \<Rightarrow>
           (case ioloop sub of
              None \<Rightarrow> ThreadStart sid f (if truthy data then Some data else None)
            | Some io \<Rightarrow> AddCallback sid io f (if truthy data then Some data else None))
       | PyQueue q \<Rightarrow> QueuePut sid q data
       | TornadoQueue q \<Rightarrow>
           (case ioloop sub of
              Some io \<Rightarrow> AddCallbackPut sid io q data
            | None \<Rightarrow> LoggerError sid)
       | OtherObject x \<Rightarrow> LoggerError sid)"
proof -
  from assms(2) obtain cbs where
    cbs: "map_of (subscribers ds) topic = Some cbs" "map_of cbs sid = Some sub"
    by (auto simp: lookup_registry_def split: option.splits)
  from cbs(1) have "(topic, cbs) \<in> set (subscribers ds)" by (rule map_of_SomeD)
  with assms(1) have dist: "distinct (map fst cbs)" by (auto simp: dict_invariant_def)
  have one: "deliveries sid cbs data = [delivery sid sub data]"
    using dist cbs(2) by (rule deliveries_unique)
  have none: "matching_deliveries sid (wildcard_subscribers ds) (topic, data) = []"
    using assms(3) by (rule matching_deliveries_absent)
  have a: "\<forall>d'. dispatch ds d (topic, data) = Some d' \<longrightarrow>
            (\<exists>evs. trace d' = trace d @ evs \<and> events_of sid evs = [delivery sid sub data])"
  proof (intro allI impI)
    fix d'
    assume "dispatch ds d (topic, data) = Some d'"
    from dispatch_trace [OF this assms(4)] obtain evs where
      "trace d' = trace d @ evs"
      "\<forall>i. events_of i evs =
         deliveries i (case map_of (subscribers ds) (fst (topic, data)) of
                         None \<Rightarrow> [] | Some cbs \<Rightarrow> cbs) (snd (topic, data)) @
         matching_deliveries i (wildcard_subscribers ds) (topic, data)"
      by blast
    then have "trace d' = trace d @ evs \<and> events_of sid evs = [delivery sid sub data]"
      using cbs(1) one none by simp
    then show "\<exists>evs. trace d' = trace d @ evs \<and> events_of sid evs = [delivery sid sub data]"
      by blast
  qed
  have b: "calm (max_threads d) (observations d) \<and>
     registry_size (subscribers ds) + registry_size (wildcard_subscribers ds)
       \<le> length (observations d) \<longrightarrow>
       (\<exists>d'. dispatch ds d (topic, data) = Some d')"
    using dispatch_calm by blast
  have c: "delivery sid sub data =
      (case callback sub of
         Callable f \<Rightarrow>
           (case ioloop sub of
              None \<Rightarrow> ThreadStart sid f (if truthy data then Some data else None)
            | Some io \<Rightarrow> AddCallback sid io f (if truthy data then Some data else None))
       | PyQueue q \<Rightarrow> QueuePut sid q data
       | TornadoQueue q \<Rightarrow>
           (case ioloop sub of
              Some io \<Rightarrow> AddCallbackPut sid io q data
            | None \<Rightarrow> LoggerError sid)
       | OtherObject x \<Rightarrow> LoggerError sid)"
    by (simp add: delivery_def payload_args_def split: callback_kind.splits option.splits)
  from a b c show ?thesis by blast
qed

theorem exact_subscriber_delivery_witness:
  "dispatch scenario_stream scenario_dispatcher (''camera/front/frame'', PObject 9) =
     Some \<lparr>max_threads = 10, observations = [(2, Started), (2, Started)],
           trace = [QueuePut 1 11 (PObject 9), ThreadStart 2 12 (Some (PObject 9))]\<rparr> \<and>
   events_of 1 [QueuePut 1 11 (PObject 9), ThreadStart 2 12 (Some (PObject 9))] =
     [QueuePut 1 11 (PObject 9)]"
proof -
  have h1: "dict_invariant (subscribers scenario_stream)" by code_simp
  have h2: "lookup_registry (subscribers scenario_stream) ''camera/front/frame'' 1 =
      Some \<lparr>callback = PyQueue 11, ioloop = None\<rparr>" by code_simp
  have h3: "1 \<notin> registry_ids (wildcard_subscribers scenario_stream)" by code_simp
  have h4: "clean (observations scenario_dispatcher)" by code_simp
  have h5: "calm (max_threads scenario_dispatcher) (observations scenario_dispatcher) \<and>
     registry_size (subscribers scenario_stream) +
       registry_size (wildcard_subscribers scenario_stream)
       \<le> length (observations scenario_dispatcher)" by code_simp
  have ev: "dispatch scenario_stream scenario_dispatcher (''camera/front/frame'', PObject 9) =
     Some \<lparr>max_threads = 10, observations = [(2, Started), (2, Started)],
           trace = [QueuePut 1 11 (PObject 9), ThreadStart 2 12 (Some (PObject 9))]\<rparr>"
    by code_simp
  have t0: "trace scenario_dispatcher = []" by (simp add: scenario_dispatcher_def)
  have del: "delivery 1 \<lparr>callback = PyQueue 11, ioloop = None\<rparr> (PObject 9) =
      QueuePut 1 11 (PObject 9)" by (simp add: delivery_def)
  from exact_subscriber_delivery [OF h1 h2 h3 h4, of "PObject 9"] ev
  obtain evs where
    "trace \<lparr>max_threads = 10, observations = [(2, Started), (2, Started)],
        trace = [QueuePut 1 11 (PObject 9), ThreadStart 2 12 (Some (PObject 9))]\<rparr> =
      trace scenario_dispatcher @ evs"
    "events_of 1 evs = [delivery 1 \<lparr>callback = PyQueue 11, ioloop = None\<rparr> (PObject 9)]"
    by blast
  then have "events_of 1 [QueuePut 1 11 (PObject 9), ThreadStart 2 12 (Some (PObject 9))] =
     [QueuePut 1 11 (PObject 9)]"
    using t0 del by simp
  with ev show ?thesis by simp
qed

text \<open>
  C6, as the claim states it, fails on two points.  With ceiling 1000 and 10 active threads,
  a failed start sets the ceiling to 9, which is not 1000 less 5 percent (950); and when the
  next reading of the active count is within the new ceiling, the start is tried again at
  once, with no sleep in between.
\<close>

theorem start_thread_ceiling_from_active_count:
  "start_thread 1000 [(10, CantStartNewThread), (9, Started)] =
     (Spawned, 9, [], [LoggerDebug 1000 10]) \<and>
   revised_ceiling 1000 = 950"
  by (simp add: revised_ceiling_def)

text \<open>
  C6, amended: in a direct delivery, a pass of the loop that finds the active count above the
  ceiling sleeps and goes round again; a pass whose \<^verbatim>\<open>thread.start()\<close> fails with "can't
  start new thread" logs, sets the ceiling to 95 percent, rounded down, of the active count it
  read (which is below that count, and at most 95 percent of the old ceiling), and goes round
  again.  As long as \<^verbatim>\<open>thread.start()\<close> fails in no other way, the delivery is never
  given up: the loop ends with the thread started, the subscriber's target then being run
  once with the payload as \<^verbatim>\<open>run_callbacks\<close> passes it, or it is still going round; and a loop
  still going round starts the thread on the first later pass that finds the active count
  within the ceiling and whose start succeeds.
\<close>

theorem start_thread_retries:
  "(m < a \<longrightarrow>
      start_thread m ((a, r) # obs) =
        (case start_thread m obs of
           (res, m', obs', evs) \<Rightarrow> (res, m', obs', TimeSleep # evs))) \<and>
   (a \<le> m \<longrightarrow>
      start_thread m ((a, CantStartNewThread) # obs) =
        (case start_thread (revised_ceiling a) obs of
           (res, m', obs', evs) \<Rightarrow> (res, m', obs', LoggerDebug m a # evs)) \<and>
      revised_ceiling a = (a * 95) div 100 \<and>
      revised_ceiling a \<le> revised_ceiling m \<and> (0 < a \<longrightarrow> revised_ceiling a < a)) \<and>
   (clean obs \<longrightarrow>
      fst (start_thread m obs) \<noteq> Abandoned \<and>
      (\<forall>m' obs' evs b. start_thread m obs = (Retrying, m', obs', evs) \<and> b \<le> m' \<longrightarrow>
         start_thread m (obs @ [(b, Started)]) = (Spawned, m', [], evs))) \<and>
   (clean (observations d) \<and> callback sub = Callable f \<and> ioloop sub = None \<longrightarrow>
      (case run_callback d sid sub data of
         None \<Rightarrow> fst (start_thread (max_threads d) (observations d)) = Retrying
       | Some d' \<Rightarrow>
           \<exists>evs. trace d' = trace d @ evs @ [ThreadStart sid f (payload_args data)] \<and>
                 events_of sid evs = []))"
proof -
  have 1: "m < a \<longrightarrow>
      start_thread m ((a, r) # obs) =
        (case start_thread m obs of
           (res, m', obs', evs) \<Rightarrow> (res, m', obs', TimeSleep # evs))"
    by simp
  have 2: "a \<le> m \<longrightarrow>
      start_thread m ((a, CantStartNewThread) # obs) =
        (case start_thread (revised_ceiling a) obs of
           (res, m', obs', evs) \<Rightarrow> (res, m', obs', LoggerDebug m a # evs)) \<and>
      revised_ceiling a = (a * 95) div 100 \<and>
      revised_ceiling a \<le> revised_ceiling m \<and> (0 < a \<longrightarrow> revised_ceiling a < a)"
    using revised_ceiling_mono [of a m] revised_ceiling_less [of a]
    by (simp add: revised_ceiling_def)
  have 3: "clean obs \<longrightarrow>
      fst (start_thread m obs) \<noteq> Abandoned \<and>
      (\<forall>m' obs' evs b. start_thread m obs = (Retrying, m', obs', evs) \<and> b \<le> m' \<longrightarrow>
         start_thread m (obs @ [(b, Started)]) = (Spawned, m', [], evs))"
    using start_thread_clean [of obs m] start_thread_retrying_extend [of m obs] by blast
  have 4: "clean (observations d) \<and> callback sub = Callable f \<and> ioloop sub = None \<longrightarrow>
      (case run_callback d sid sub data of
         None \<Rightarrow> fst (start_thread (max_threads d) (observations d)) = Retrying
       | Some d' \<Rightarrow>
           \<exists>evs. trace d' = trace d @ evs @ [ThreadStart sid f (payload_args data)] \<and>
                 events_of sid evs = [])"
    using run_callback_direct [of sub f d sid data] by blast
  from 1 2 3 4 show ?thesis by blast
qed

theorem start_thread_retries_witness:
  "start_thread 10 [(12, Started), (10, CantStartNewThread), (10, Started), (9, Started)] =
     (Spawned, 9, [], [TimeSleep, LoggerDebug 10 10, TimeSleep]) \<and>
   start_thread 10 [(10, CantStartNewThread), (10, Started)] =
     (Retrying, 9, [], [LoggerDebug 10 10, TimeSleep]) \<and>
   start_thread 10 ([(10, CantStartNewThread), (10, Started)] @ [(9, Started)]) =
     (Spawned, 9, [], [LoggerDebug 10 10, TimeSleep]) \<and>
   run_callback
     \<lparr>max_threads = 10, observations = [(10, CantStartNewThread), (10, Started), (9, Started)],
      trace = []\<rparr>
     2 \<lparr>callback = Callable 12, ioloop = None\<rparr> (PObject 9) =
     Some \<lparr>max_threads = 9, observations = [],
           trace = [LoggerDebug 10 10, TimeSleep, ThreadStart 2 12 (Some (PObject 9))]\<rparr>"
proof -
  have c: "clean [(10, CantStartNewThread), (10, Started)]"
    by (simp add: clean_def)
  have r: "start_thread 10 [(10, CantStartNewThread), (10, Started)] =
      (Retrying, 9, [], [LoggerDebug 10 10, TimeSleep])"
    by (simp add: revised_ceiling_def)
  have "start_thread 10 ([(10, CantStartNewThread), (10, Started)] @ [(9, Started)]) =
      (Spawned, 9, [], [LoggerDebug 10 10, TimeSleep])"
    using start_thread_retries
      [of 10 10 CantStartNewThread "[(10, CantStartNewThread), (10, Started)]"] c r
    by blast
  then show ?thesis
    by (simp add: revised_ceiling_def run_callback_def payload_args_def)
qed

text \<open>
  C8: a subscription whose target is of an unsupported kind (not callable, not a
  \<^verbatim>\<open>Queue\<close>, and not a tornado queue with an ioloop) gets no delivery: \<^verbatim>\<open>run_callbacks\<close> logs
  an error for it and goes on, the ceiling and everything else unchanged.  Nothing else is
  affected: dispatching any sequence of messages with the invalid subscription in the
  registries does exactly what it does without it (the same result for every other
  subscriber and every later message, the same ceiling, or in both cases a thread-start
  loop that has not ended), apart from the logged errors.
\<close>

theorem unsupported_target_skipped:
  assumes "only_unsupported sid (subscribers ds)"
    and "only_unsupported sid (wildcard_subscribers ds)"
  shows "(\<not> supported sub \<longrightarrow>
            run_callback d sid sub data = Some (d\<lparr>trace := trace d @ [LoggerError sid]\<rparr>)) \<and>
    (supported sub \<longleftrightarrow>
       (\<exists>f. callback sub = Callable f) \<or> (\<exists>q. callback sub = PyQueue q) \<or>
       (\<exists>q io. callback sub = TornadoQueue q \<and> ioloop sub = Some io)) \<and>
    dispatch_all (without_subscription sid ds) (without_error sid d) items =
      map_option (without_error sid) (dispatch_all ds d items)"
proof -
  have a: "\<not> supported sub \<longrightarrow>
      run_callback d sid sub data = Some (d\<lparr>trace := trace d @ [LoggerError sid]\<rparr>)"
    using run_callback_unsupported [of sub d sid data] by (simp add: emit_def)
  have b: "supported sub \<longleftrightarrow>
       (\<exists>f. callback sub = Callable f) \<or> (\<exists>q. callback sub = PyQueue q) \<or>
       (\<exists>q io. callback sub = TornadoQueue q \<and> ioloop sub = Some io)"
    by (auto simp: supported_def split: callback_kind.splits)
  from a b dispatch_all_without [OF assms, of d items] show ?thesis by blast
qed

theorem unsupported_target_skipped_witness:
  "dispatch_all
     (snd (subscribe_data scenario_stream ''camera/front/frame'' (TornadoQueue 14) None 4))
     scenario_dispatcher
     [(''camera/front/frame'', PObject 9), (''camera/front/event'', PObject 8)] =
     Some \<lparr>max_threads = 10, observations = [(2, Started), (2, Started)],
       trace = [QueuePut 1 11 (PObject 9), LoggerError 4, ThreadStart 2 12 (Some (PObject 9)),
                AddCallback 3 5 13 (Some (PObject 8))]\<rparr> \<and>
   dispatch_all scenario_stream scenario_dispatcher
     [(''camera/front/frame'', PObject 9), (''camera/front/event'', PObject 8)] =
     Some \<lparr>max_threads = 10, observations = [(2, Started), (2, Started)],
       trace = [QueuePut 1 11 (PObject 9), ThreadStart 2 12 (Some (PObject 9)),
                AddCallback 3 5 13 (Some (PObject 8))]\<rparr>"
proof -
  let ?ds = "snd (subscribe_data scenario_stream ''camera/front/frame'' (TornadoQueue 14) None 4)"
  let ?items = "[(''camera/front/frame'', PObject 9), (''camera/front/event'', PObject 8)]"
  have h1: "only_unsupported 4 (subscribers ?ds)" by code_simp
  have h2: "only_unsupported 4 (wildcard_subscribers ?ds)" by code_simp
  have ev: "dispatch_all ?ds scenario_dispatcher ?items =
     Some \<lparr>max_threads = 10, observations = [(2, Started), (2, Started)],
       trace = [QueuePut 1 11 (PObject 9), LoggerError 4, ThreadStart 2 12 (Some (PObject 9)),
                AddCallback 3 5 13 (Some (PObject 8))]\<rparr>"
    by code_simp
  have w1: "without_error 4 scenario_dispatcher = scenario_dispatcher" by code_simp
  have w2: "dispatch_all (without_subscription 4 ?ds) scenario_dispatcher ?items =
      dispatch_all scenario_stream scenario_dispatcher ?items"
    by code_simp
  from unsupported_target_skipped [OF h1 h2, of _ scenario_dispatcher _ ?items]
  have "dispatch_all (without_subscription 4 ?ds) (without_error 4 scenario_dispatcher) ?items =
      map_option (without_error 4) (dispatch_all ?ds scenario_dispatcher ?items)"
    by blast
  with ev w1 w2 have "dispatch_all scenario_stream scenario_dispatcher ?items =
     Some \<lparr>max_threads = 10, observations = [(2, Started), (2, Started)],
       trace = [QueuePut 1 11 (PObject 9), ThreadStart 2 12 (Some (PObject 9)),
                AddCallback 3 5 13 (Some (PObject 8))]\<rparr>"
    by (simp add: without_error_def)
  with ev show ?thesis by simp
qed

text \<open>
  C10: for a callable target, with or without an ioloop, the dispatcher tests the payload for
  truth, not for presence: the target gets the payload as its argument when the payload is
  truthy and is called with no argument when it is falsy (\<^verbatim>\<open>None\<close>, \<^verbatim>\<open>0\<close>, \<^verbatim>\<open>False\<close>, an
  empty string, an empty list).  A queue target, direct or through an ioloop, is handed the
  payload whatever its truth value.
\<close>

theorem run_callback_payload_truthiness:
  "(callback sub = Callable f \<and> ioloop sub = None \<and>
      start_thread (max_threads d) (observations d) = (Spawned, m, obs, evs) \<longrightarrow>
        run_callback d sid sub data =
          Some (d\<lparr>max_threads := m, observations := obs,
                  trace := trace d @ evs @
                    [ThreadStart sid f (if truthy data then Some data else None)]\<rparr>)) \<and>
   (callback sub = Callable f \<and> ioloop sub = Some io \<longrightarrow>
        run_callback d sid sub data =
          Some (d\<lparr>trace := trace d @
                    [AddCallback sid io f (if truthy data then Some data else None)]\<rparr>)) \<and>
   (callback sub = PyQueue q \<longrightarrow>
        run_callback d sid sub data = Some (d\<lparr>trace := trace d @ [QueuePut sid q data]\<rparr>)) \<and>
   (callback sub = TornadoQueue q \<and> ioloop sub = Some io \<longrightarrow>
        run_callback d sid sub data =
          Some (d\<lparr>trace := trace d @ [AddCallbackPut sid io q data]\<rparr>)) \<and>
   \<not> truthy PNone \<and> \<not> truthy (PInt 0) \<and> \<not> truthy (PBool False) \<and> \<not> truthy (PStr []) \<and>
   \<not> truthy (PList [])"
  by (simp add: run_callback_def payload_args_def emit_def)

theorem run_callback_payload_truthiness_witness:
  "run_callback scenario_dispatcher 2 \<lparr>callback = Callable 12, ioloop = None\<rparr> (PInt 0) =
     Some \<lparr>max_threads = 10, observations = [(2, Started), (2, Started)],
           trace = [ThreadStart 2 12 None]\<rparr> \<and>
   run_callback scenario_dispatcher 3 \<lparr>callback = Callable 13, ioloop = Some 5\<rparr> (PStr []) =
     Some \<lparr>max_threads = 10, observations = [(2, Started), (2, Started), (2, Started)],
           trace = [AddCallback 3 5 13 None]\<rparr> \<and>
   run_callback scenario_dispatcher 3 \<lparr>callback = Callable 13, ioloop = Some 5\<rparr> (PInt 4) =
     Some \<lparr>max_threads = 10, observations = [(2, Started), (2, Started), (2, Started)],
           trace = [AddCallback 3 5 13 (Some (PInt 4))]\<rparr> \<and>
   run_callback scenario_dispatcher 1 \<lparr>callback = PyQueue 11, ioloop = None\<rparr> (PInt 0) =
     Some \<lparr>max_threads = 10, observations = [(2, Started), (2, Started), (2, Started)],
           trace = [QueuePut 1 11 (PInt 0)]\<rparr>"
  using
    run_callback_payload_truthiness
      [of "\<lparr>callback = Callable 12, ioloop = None\<rparr>" 12 scenario_dispatcher 10
          "[(2, Started), (2, Started)]" "[]" 2 "PInt 0"]
    run_callback_payload_truthiness
      [of "\<lparr>callback = Callable 13, ioloop = Some 5\<rparr>" 13 scenario_dispatcher _ _ _ 3 "PStr []" 5]
    run_callback_payload_truthiness
      [of "\<lparr>callback = Callable 13, ioloop = Some 5\<rparr>" 13 scenario_dispatcher _ _ _ 3 "PInt 4" 5]
    run_callback_payload_truthiness
      [of "\<lparr>callback = PyQueue 11, ioloop = None\<rparr>" _ scenario_dispatcher _ _ _ 1 "PInt 0" _ 11]
  by (simp add: scenario_dispatcher_def)

section \<open>Claims about the process watchdog\<close>




text \<open>
  C7, as the claim states it, fails for a unit whose child goes on running after \<^verbatim>\<open>SIGTERM\<close>
  when \<^verbatim>\<open>restart\<close> is called with its default timeout \<^verbatim>\<open>None\<close> (as the watchdog calls it):
  \<^verbatim>\<open>terminate()\<close> and \<^verbatim>\<open>join(timeout=None)\<close> are called and the join never returns, so
  \<^verbatim>\<open>kill()\<close> and \<^verbatim>\<open>start()\<close> are not called; the unit keeps its process object and its start
  timestamp, and its flag stays cleared.
\<close>

theorem restart_waits_without_end:
  "units (later 1700000030 [] stubborn_unit_state) =
     [\<lparr>args = [], name = Some ''camera_1'', grace_period = 20,
       kwargs = [(''target'', ACallable 0), (''daemon'', ABool True)], process = Some 0,
       started = True, start_time = Some 1700000000, register = True\<rparr>] \<and>
   children (later 1700000030 [] stubborn_unit_state) 0 = Running False \<and>
   fst (restart 0 None (later 1700000030 [] stubborn_unit_state)) = Blocks \<and>
   events (snd (restart 0 None (later 1700000030 [] stubborn_unit_state))) =
     events stubborn_unit_state @ [Restart 0 None, ProcessTerminate 0, ProcessJoin 0 None] \<and>
   units (snd (restart 0 None (later 1700000030 [] stubborn_unit_state))) =
     [\<lparr>args = [], name = Some ''camera_1'', grace_period = 20,
       kwargs = [(''target'', ACallable 0), (''daemon'', ABool True)], process = Some 0,
       started = False, start_time = Some 1700000000, register = True\<rparr>]"
  by code_simp

text \<open>
  C7, amended: \<^verbatim>\<open>restart(timeout)\<close> makes its calls in this order: \<^verbatim>\<open>terminate()\<close> on the
  current process object, \<^verbatim>\<open>join(timeout)\<close>, \<^verbatim>\<open>kill()\<close>, then \<^verbatim>\<open>start()\<close>, which creates a new
  process object and starts it (and registers the unit); without a current process object
  it goes straight to \<^verbatim>\<open>start()\<close>.  It makes a beginning of this sequence in every case and
  the whole of it when it returns.  It waits without end, having called \<^verbatim>\<open>terminate()\<close> and
  \<^verbatim>\<open>join\<close> only, exactly when the timeout is \<^verbatim>\<open>None\<close> and the child is running and does not
  exit on \<^verbatim>\<open>SIGTERM\<close>.  It returns exactly when the current process object, if there is one,
  has been started, the wait ends, \<^verbatim>\<open>mp.Process\<close> accepts the stored arguments and the
  operating system starts the new process; otherwise it raises.  In every case the name, the
  construction arguments, the grace period and the register flag of the unit are unchanged,
  and so are the other units.  When \<^verbatim>\<open>restart\<close> returns, the process handle is a newly
  created one, held by no unit before, the start timestamp is the clock reading of this
  start, the flag is set and the unit is running.
\<close>

theorem restart_sequence:
  assumes "r < length (units w)" and "handles_created w"
  shows
   "(\<exists>n. events (snd (restart r timeout w)) = events w @ take n (restart_calls r timeout w)) \<and>
    (fst (restart r timeout w) = Returns \<longrightarrow>
       events (snd (restart r timeout w)) = events w @ restart_calls r timeout w) \<and>
    (fst (restart r timeout w) = Blocks \<longleftrightarrow>
       (\<exists>h. process (units w ! r) = Some h \<and> children w h = Running False \<and> timeout = None)) \<and>
    (fst (restart r timeout w) = Blocks \<longrightarrow>
       (\<exists>h. process (units w ! r) = Some h \<and>
          events (snd (restart r timeout w)) =
            events w @ [Restart r timeout, ProcessTerminate h, ProcessJoin h timeout])) \<and>
    (fst (restart r timeout w) = Returns \<longleftrightarrow>
       (\<forall>h. process (units w ! r) = Some h \<longrightarrow>
          children w h \<noteq> NotStarted \<and> (children w h = Running False \<longrightarrow> timeout \<noteq> None)) \<and>
       process_init_error (args (units w ! r)) (kwargs (units w ! r)) = None \<and>
       (\<exists>b. os_start w (next_handle w) = Launched b)) \<and>
    name (units (snd (restart r timeout w)) ! r) = name (units w ! r) \<and>
    args (units (snd (restart r timeout w)) ! r) = args (units w ! r) \<and>
    kwargs (units (snd (restart r timeout w)) ! r) = kwargs (units w ! r) \<and>
    grace_period (units (snd (restart r timeout w)) ! r) = grace_period (units w ! r) \<and>
    register (units (snd (restart r timeout w)) ! r) = register (units w ! r) \<and>
    (fst (restart r timeout w) = Returns \<longrightarrow>
       process (units (snd (restart r timeout w)) ! r) = Some (next_handle w) \<and>
       (\<forall>p \<in> set (units w). process p \<noteq> Some (next_handle w)) \<and>
       start_time (units (snd (restart r timeout w)) ! r) = Some (now w) \<and>
       started (units (snd (restart r timeout w)) ! r) \<and>
       is_alive (snd (restart r timeout w)) (units (snd (restart r timeout w)) ! r)) \<and>
    (\<forall>k. k \<noteq> r \<longrightarrow> units (snd (restart r timeout w)) ! k = units w ! k) \<and>
    length (units (snd (restart r timeout w))) = length (units w)"
proof -
  let ?p = "units w ! r"
  have fresh: "\<forall>p \<in> set (units w). process p \<noteq> Some (next_handle w)"
    using assms(2) by (auto simp: handles_created_iff)
  note facts = assms(1) fresh
  show ?thesis
  proof (cases "process ?p")
    case None
    show ?thesis
    proof (cases "process_init_error (args ?p) (kwargs ?p)")
      case (Some e)
      with None facts show ?thesis by (simp add: restart_unfold)
    next
      case ok: None
      with None facts show ?thesis
        by (cases "os_start w (next_handle w)") (simp_all add: restart_unfold)
    qed
  next
    case (Some h)
    show ?thesis
    proof (cases "children w h")
      case NotStarted
      with Some facts show ?thesis by (simp add: restart_unfold)
    next
      case Exited
      show ?thesis
      proof (cases "process_init_error (args ?p) (kwargs ?p)")
        case bad: (Some e)
        with Some Exited facts show ?thesis by (simp add: restart_unfold)
      next
        case ok: None
        with Some Exited facts show ?thesis
          by (cases "os_start w (next_handle w)") (simp_all add: restart_unfold)
      qed
    next
      case (Running b)
      show ?thesis
      proof (cases "\<not> b \<and> timeout = None")
        case True
        with Some Running facts show ?thesis by (simp add: restart_unfold)
      next
        case False
        then have go: "b \<or> timeout \<noteq> None" by simp
        show ?thesis
        proof (cases "process_init_error (args ?p) (kwargs ?p)")
          case bad: (Some e)
          with Some Running go facts show ?thesis by (auto simp: restart_unfold)
        next
          case ok: None
          with Some Running go facts show ?thesis
            by (cases "os_start w (next_handle w)") (auto simp: restart_unfold)
        qed
      qed
    qed
  qed
qed

theorem restart_sequence_witness:
  "0 < length (units (later 1700000030 [] stubborn_unit_state)) \<and>
   handles_created (later 1700000030 [] stubborn_unit_state) \<and>
   units (later 1700000030 [] stubborn_unit_state) =
     [\<lparr>args = [], name = Some ''camera_1'', grace_period = 20,
       kwargs = [(''target'', ACallable 0), (''daemon'', ABool True)], process = Some 0,
       started = True, start_time = Some 1700000000, register = True\<rparr>] \<and>
   fst (restart 0 (Some 5) (later 1700000030 [] stubborn_unit_state)) = Returns \<and>
   events (snd (restart 0 (Some 5) (later 1700000030 [] stubborn_unit_state))) =
     events stubborn_unit_state @
     [Restart 0 (Some 5), ProcessTerminate 0, ProcessJoin 0 (Some 5), ProcessKill 0,
      ProcessCreate 1, ProcessStart 1, Register 0] \<and>
   units (snd (restart 0 (Some 5) (later 1700000030 [] stubborn_unit_state))) =
     [\<lparr>args = [], name = Some ''camera_1'', grace_period = 20,
       kwargs = [(''target'', ACallable 0), (''daemon'', ABool True)], process = Some 1,
       started = True, start_time = Some 1700000030, register = True\<rparr>] \<and>
   fst (restart 0 None (later 1700000030 [] stubborn_unit_state)) = Blocks \<and>
   fst (restart 0 None (later 1700000030 [0] stubborn_unit_state)) = Returns"
proof -
  let ?w = "later 1700000030 [] stubborn_unit_state"
  let ?d = "later 1700000030 [0] stubborn_unit_state"
  have h1: "0 < length (units ?w)" and h2: "handles_created ?w"
    and d1: "0 < length (units ?d)" and d2: "handles_created ?d"
    by code_simp+
  have u: "units ?w =
     [\<lparr>args = [], name = Some ''camera_1'', grace_period = 20,
       kwargs = [(''target'', ACallable 0), (''daemon'', ABool True)], process = Some 0,
       started = True, start_time = Some 1700000000, register = True\<rparr>]"
    by code_simp
  have c: "children ?w 0 = Running False" "children ?d 0 = Exited"
    "process (units ?w ! 0) = Some 0" "process (units ?d ! 0) = Some 0"
    "process_init_error (args (units ?w ! 0)) (kwargs (units ?w ! 0)) = None"
    "process_init_error (args (units ?d ! 0)) (kwargs (units ?d ! 0)) = None"
    "events ?w = events stubborn_unit_state"
    "restart_calls 0 (Some 5) ?w =
       [Restart 0 (Some 5), ProcessTerminate 0, ProcessJoin 0 (Some 5), ProcessKill 0,
        ProcessCreate 1, ProcessStart 1, Register 0]"
    by code_simp+
  have os: "\<exists>b. os_start ?w (next_handle ?w) = Launched b"
    "\<exists>b. os_start ?d (next_handle ?d) = Launched b"
    by (auto simp: later_os_start stubborn_unit_state_def start_os_start initial_state_def)
  have r5: "fst (restart 0 (Some 5) ?w) = Returns"
    using restart_sequence [OF h1 h2, of "Some 5"] c os by simp
  then have e5: "events (snd (restart 0 (Some 5) ?w)) =
     events stubborn_unit_state @
     [Restart 0 (Some 5), ProcessTerminate 0, ProcessJoin 0 (Some 5), ProcessKill 0,
      ProcessCreate 1, ProcessStart 1, Register 0]"
    using restart_sequence [OF h1 h2, of "Some 5"] c by simp
  have u5: "units (snd (restart 0 (Some 5) ?w)) =
     [\<lparr>args = [], name = Some ''camera_1'', grace_period = 20,
       kwargs = [(''target'', ACallable 0), (''daemon'', ABool True)], process = Some 1,
       started = True, start_time = Some 1700000030, register = True\<rparr>]"
    by code_simp
  have rn: "fst (restart 0 None ?w) = Blocks"
    using restart_sequence [OF h1 h2, of None] c by simp
  have rd: "fst (restart 0 None ?d) = Returns"
    using restart_sequence [OF d1 d2, of None] c os by simp
  from h1 h2 u r5 e5 u5 rn rd show ?thesis by blast
qed

end
